theory Spec2Isabelle
  imports Main "HOL-Library.Word" "HOL-Library.Multiset"
begin

section \<open>Bytes, slices and big-endian integers\<close>

text \<open>
  A Python \<open>bytes\<close> object is a list of 8-bit words. A slice \<open>xs[i:j]\<close> with
  non-negative bounds never raises: it is clamped to the list. Indexing \<open>xs[i]\<close>
  raises \<open>IndexError\<close> out of range, which the model returns as a value.
\<close>

type_synonym byte = "8 word"

datatype py_error = IndexError | ValueError

definition slice :: "'a list \<Rightarrow> nat \<Rightarrow> nat \<Rightarrow> 'a list" where
  "slice xs i j = take (j - i) (drop i xs)"

definition byte_at :: "byte list \<Rightarrow> nat \<Rightarrow> py_error + byte" where
  "byte_at xs i = (if i < length xs then Inr (xs ! i) else Inl IndexError)"

definition from_bytes_big :: "byte list \<Rightarrow> nat" where
  "from_bytes_big bs = foldl (\<lambda>acc b. acc * 256 + unat b) 0 bs"

section \<open>Strategy B: the entry decoder of \<open>recovery_improved_json.py\<close>\<close>

text \<open>
  One iteration of the \<open>while pos < len(file_data)\<close> loop of
  \<open>extract_messages_from_erlang_entries\<close>, up to the point where the entry body is
  handed on: the loop stops (\<open>break\<close>, or the loop condition fails), resynchronises
  after a corrupt header (\<open>continue\<close> with the cursor moved by 8), or yields the entry
  body together with the new cursor.
\<close>

datatype entry_step = Stop | Resync nat | Entry "byte list" nat

definition read_entry :: "byte list \<Rightarrow> nat \<Rightarrow> py_error + entry_step" where
  "read_entry file_data pos =
     (if \<not> pos < length file_data then Inr Stop
      else if pos + 8 > length file_data then Inr Stop
      else
        let size = from_bytes_big (slice file_data pos (pos + 4)) in
        case byte_at file_data (pos + 4) of
          Inl e \<Rightarrow> Inl e
        | Inr flags \<Rightarrow>
            if size = 0 \<or> size > 10 * 1024 * 1024 then Inr (Resync (pos + 8))
            else if pos + 8 + size > length file_data then Inr Stop
            else Inr (Entry (slice file_data (pos + 8) (pos + 8 + size)) (pos + 8 + size)))"

text \<open>The value of the four bytes at \<open>pos\<close>, read by index, most significant first.\<close>

definition be32_at :: "byte list \<Rightarrow> nat \<Rightarrow> nat" where
  "be32_at file_data pos =
     unat (file_data ! pos) * 2 ^ 24 + unat (file_data ! (pos + 1)) * 2 ^ 16
     + unat (file_data ! (pos + 2)) * 2 ^ 8 + unat (file_data ! (pos + 3))"

section \<open>The term payload extractor of \<open>recovery_improved_json.py\<close>\<close>

text \<open>
  \<open>extract_payload_from_erlang\<close>: a left-to-right scan for \<open>BINARY_EXT\<close> tags that
  keeps the largest binary with enough printable bytes. \<open>payload_step\<close> is the body
  of the \<open>while pos < len(data) - 5\<close> loop, returning the new position and the new
  \<open>largest_binary\<close>; the read \<open>data[pos]\<close> is inside the loop guard, which keeps
  it in range. The code of the letter m is 109.
\<close>

definition printable_count :: "byte list \<Rightarrow> nat" where
  "printable_count binary_data = length (filter (\<lambda>b. 32 \<le> b \<and> b \<le> 126) (take 100 binary_data))"

definition payload_step :: "byte list \<Rightarrow> nat \<Rightarrow> byte list \<Rightarrow> nat \<times> byte list" where
  "payload_step data pos largest_binary =
     (let tag = data ! pos in
      if (tag = 0x6d \<or> tag = 109) \<and> pos + 5 \<le> length data then
        let len = from_bytes_big (slice data (pos + 1) (pos + 5)) in
        if 10 \<le> len \<and> len \<le> 1024 * 1024 \<and> pos + 5 + len \<le> length data then
          let binary_data = slice data (pos + 5) (pos + 5 + len) in
          (pos + (5 + len),
           if length binary_data > length largest_binary \<and> printable_count binary_data > 10
           then binary_data else largest_binary)
        else (pos + 1, largest_binary)
      else (pos + 1, largest_binary))"

function payload_loop :: "byte list \<Rightarrow> nat \<Rightarrow> byte list \<Rightarrow> byte list" where
  "payload_loop data pos largest_binary =
     (if pos + 5 < length data
      then payload_loop data (fst (payload_step data pos largest_binary))
             (snd (payload_step data pos largest_binary))
      else largest_binary)"
  by pat_completeness auto
termination
  by (relation "measure (\<lambda>(data, pos, largest_binary). length data - pos)")
     (auto simp: payload_step_def Let_def)

declare payload_loop.simps [simp del]

definition extract_payload_from_erlang :: "byte list \<Rightarrow> byte list" where
  "extract_payload_from_erlang data = payload_loop data 0 []"

text \<open>
  The vocabulary of the specification: a candidate at a position (tag, length in
  \<open>[10, 1 MiB]\<close>, body inside the buffer), a qualifying candidate (more than 10
  printable bytes among its first 100), and the candidates that the scan meets.
\<close>

definition binary_ext_length :: "byte list \<Rightarrow> nat \<Rightarrow> nat" where
  "binary_ext_length data pos = be32_at data (pos + 1)"

definition is_candidate :: "byte list \<Rightarrow> nat \<Rightarrow> bool" where
  "is_candidate data pos \<longleftrightarrow>
     pos + 5 \<le> length data \<and> data ! pos = 0x6d \<and>
     10 \<le> binary_ext_length data pos \<and> binary_ext_length data pos \<le> 1024 * 1024 \<and>
     pos + 5 + binary_ext_length data pos \<le> length data"

definition candidate_body :: "byte list \<Rightarrow> nat \<Rightarrow> byte list" where
  "candidate_body data pos = slice data (pos + 5) (pos + 5 + binary_ext_length data pos)"

definition qualifies :: "byte list \<Rightarrow> nat \<Rightarrow> bool" where
  "qualifies data pos \<longleftrightarrow> is_candidate data pos \<and> 10 < printable_count (candidate_body data pos)"


definition keep_larger :: "byte list \<Rightarrow> byte list \<Rightarrow> byte list" where
  "keep_larger best c = (if length best < length c then c else best)"

function scan_candidates :: "byte list \<Rightarrow> nat \<Rightarrow> byte list list" where
  "scan_candidates data pos =
     (if pos + 5 < length data then
        (if is_candidate data pos then
           (if 10 < printable_count (candidate_body data pos) then [candidate_body data pos] else [])
           @ scan_candidates data (pos + 5 + binary_ext_length data pos)
         else scan_candidates data (pos + 1))
      else [])"
  by pat_completeness auto
termination
  by (relation "measure (\<lambda>(data, pos). length data - pos)") (auto simp: is_candidate_def)

declare scan_candidates.simps [simp del]


section \<open>Searching in byte strings\<close>

text \<open>
  \<open>first_index P lo hi\<close> and \<open>last_index P lo hi\<close> are the least and the greatest
  index in \<open>[lo, hi)\<close> that satisfies \<open>P\<close>. Python's \<open>data.find(sub, start, end)\<close>
  and \<open>data.rfind(sub, start, end)\<close> return the lowest and the highest index at which
  \<open>sub\<close> lies wholly inside \<open>data[start:end]\<close>, and \<open>-1\<close> when there is none.
\<close>

definition first_index :: "(nat \<Rightarrow> bool) \<Rightarrow> nat \<Rightarrow> nat \<Rightarrow> nat option" where
  "first_index P lo hi = List.find P [lo..<hi]"

definition last_index :: "(nat \<Rightarrow> bool) \<Rightarrow> nat \<Rightarrow> nat \<Rightarrow> nat option" where
  "last_index P lo hi = List.find P (rev [lo..<hi])"

definition sub_at :: "byte list \<Rightarrow> byte list \<Rightarrow> nat \<Rightarrow> bool" where
  "sub_at sub data i \<longleftrightarrow> slice data i (i + length sub) = sub"

definition py_find :: "byte list \<Rightarrow> byte list \<Rightarrow> nat \<Rightarrow> nat \<Rightarrow> int" where
  "py_find data sub start end =
     (case first_index (sub_at sub data) start ((min end (length data) + 1) - length sub) of
        None \<Rightarrow> - 1 | Some i \<Rightarrow> int i)"

definition py_rfind :: "byte list \<Rightarrow> byte list \<Rightarrow> nat \<Rightarrow> nat \<Rightarrow> int" where
  "py_rfind data sub start end =
     (case last_index (sub_at sub data) start ((min end (length data) + 1) - length sub) of
        None \<Rightarrow> - 1 | Some i \<Rightarrow> int i)"

section \<open>The content sanitizer of \<open>recovery_improved_json.py\<close>\<close>

text \<open>
  \<open>find_json_end\<close>: the loop \<open>for i in range(start, len(data))\<close> with its three
  variables \<open>depth\<close>, \<open>in_string\<close> and \<open>escape\<close>; \<open>json_scan\<close> runs it over the bytes
  from index \<open>i\<close> on and returns \<open>Some (i + 1)\<close> at the \<open>return i + 1\<close>, \<open>None\<close> when
  the loop runs out. A byte of 128 or more has \<open>char = None\<close> and equals none of the
  four characters. The bytes: backslash 0x5c, double quote 0x22, \<open>{\<close> 0x7b, \<open>}\<close> 0x7d.
\<close>

fun json_scan :: "byte list \<Rightarrow> nat \<Rightarrow> int \<Rightarrow> bool \<Rightarrow> bool \<Rightarrow> nat option" where
  "json_scan [] i depth in_string escape = None"
| "json_scan (byte # rest) i depth in_string escape =
     (if escape then json_scan rest (i + 1) depth in_string False
      else if byte = 0x5c \<and> in_string then json_scan rest (i + 1) depth in_string True
      else if byte = 0x22 then json_scan rest (i + 1) depth (\<not> in_string) False
      else if \<not> in_string then
        (if byte = 0x7b then json_scan rest (i + 1) (depth + 1) in_string False
         else if byte = 0x7d then
           (if depth - 1 = 0 then Some (i + 1)
            else json_scan rest (i + 1) (depth - 1) in_string False)
         else json_scan rest (i + 1) depth in_string False)
      else json_scan rest (i + 1) depth in_string False)"

definition find_json_end :: "byte list \<Rightarrow> nat \<Rightarrow> nat" where
  "find_json_end data start =
     (case json_scan (drop start data) start 0 False False of
        Some e \<Rightarrow> e | None \<Rightarrow> length data)"

text \<open>
  The Python built-ins that the repository calls and does not define: the UTF-8 codec
  and the character classes of \<open>str\<close> beyond ASCII. A string is a list of code points.
  On ASCII the classes are written out: \<open>isprintable\<close> holds on 0x20 to 0x7e,
  \<open>isalnum\<close> on digits and letters, \<open>isspace\<close> on 0x09 to 0x0d, 0x1c to 0x1f and 0x20.
\<close>

record py_builtins =
  decode_ignore :: "byte list \<Rightarrow> nat list"
  decode_strict :: "byte list \<Rightarrow> nat list option"
  encode :: "nat list \<Rightarrow> byte list"
  printable_above_ascii :: "nat \<Rightarrow> bool"
  alnum_above_ascii :: "nat \<Rightarrow> bool"
  space_above_ascii :: "nat \<Rightarrow> bool"

definition isprintable :: "py_builtins \<Rightarrow> nat \<Rightarrow> bool" where
  "isprintable rt c = (if c < 128 then 32 \<le> c \<and> c \<le> 126 else printable_above_ascii rt c)"

definition isalnum :: "py_builtins \<Rightarrow> nat \<Rightarrow> bool" where
  "isalnum rt c =
     (if c < 128 then (48 \<le> c \<and> c \<le> 57) \<or> (65 \<le> c \<and> c \<le> 90) \<or> (97 \<le> c \<and> c \<le> 122)
      else alnum_above_ascii rt c)"

definition isspace :: "py_builtins \<Rightarrow> nat \<Rightarrow> bool" where
  "isspace rt c =
     (if c < 128 then (9 \<le> c \<and> c \<le> 13) \<or> (28 \<le> c \<and> c \<le> 32) else space_above_ascii rt c)"

text \<open>\<open>bytes.strip()\<close> removes the ASCII whitespace bytes space, tab, LF, CR, VT and FF.\<close>

definition bytes_space :: "byte \<Rightarrow> bool" where
  "bytes_space b \<longleftrightarrow> b = 0x20 \<or> b = 0x09 \<or> b = 0x0a \<or> b = 0x0d \<or> b = 0x0b \<or> b = 0x0c"

definition bytes_strip :: "byte list \<Rightarrow> byte list" where
  "bytes_strip bs = rev (dropWhile bytes_space (rev (dropWhile bytes_space bs)))"

text \<open>
  The three strategies of \<open>clean_message_content\<close>, each returning \<open>None\<close> where the
  source falls through to the next one.
\<close>

definition json_strategy :: "byte list \<Rightarrow> byte list option" where
  "json_strategy raw_content =
     (if 0x7b \<in> set raw_content then
        let json_start = py_find raw_content [0x7b] 0 (length raw_content);
            json_end = find_json_end raw_content (nat json_start)
        in if int json_end > json_start
           then Some (slice raw_content (nat json_start) json_end) else None
      else None)"

definition xml_strategy :: "byte list \<Rightarrow> byte list option" where
  "xml_strategy raw_content =
     (if 0x3c \<in> set raw_content then
        let xml_start = py_find raw_content [0x3c] 0 (length raw_content);
            xml_end = py_rfind raw_content [0x3e] 0 (length raw_content)
        in if xml_end > xml_start
           then Some (slice raw_content (nat xml_start) (nat (xml_end + 1))) else None
      else None)"

text \<open>
  The loop \<open>for i in range(len(decoded)-1, -1, -1)\<close> looks for the last character that
  is printable or one of LF, CR, TAB; without one \<open>printable_end\<close> stays \<open>len(decoded)\<close>.
\<close>

definition printable_end :: "py_builtins \<Rightarrow> nat list \<Rightarrow> nat" where
  "printable_end rt decoded =
     (case last_index (\<lambda>i. isprintable rt (decoded ! i) \<or> decoded ! i \<in> {10, 13, 9}) 0 (length decoded) of
        None \<Rightarrow> length decoded | Some i \<Rightarrow> i + 1)"

definition text_strategy :: "py_builtins \<Rightarrow> byte list \<Rightarrow> byte list" where
  "text_strategy rt raw_content =
     (let content = bytes_strip raw_content;
          content =
            (if py_find (drop (length content - 20) content) [0x6a, 0x74] 0 (length content) \<noteq> - 1
             then take (nat (py_rfind content [0x6a, 0x74] 0 (length content))) content
             else content);
          decoded = decode_ignore rt content
      in encode rt (take (printable_end rt decoded) decoded))"

definition clean_message_content :: "py_builtins \<Rightarrow> byte list \<Rightarrow> byte list" where
  "clean_message_content rt raw_content =
     (case json_strategy raw_content of
        Some content \<Rightarrow> content
      | None \<Rightarrow>
          (case xml_strategy raw_content of
             Some content \<Rightarrow> content
           | None \<Rightarrow> text_strategy rt raw_content))"

text \<open>
  The vocabulary of the specification for the JSON boundary: the scanner state (depth,
  inside a string, escape pending) after a byte, the state after the bytes
  \<open>start \<dots> i\<close>, and "the depth returns to zero at \<open>i\<close>".
\<close>

type_synonym json_state = "int \<times> bool \<times> bool"

fun json_step :: "json_state \<Rightarrow> byte \<Rightarrow> json_state" where
  "json_step (depth, in_string, escape) byte =
     (if escape then (depth, in_string, False)
      else if byte = 0x5c \<and> in_string then (depth, in_string, True)
      else if byte = 0x22 then (depth, \<not> in_string, False)
      else if \<not> in_string \<and> byte = 0x7b then (depth + 1, in_string, False)
      else if \<not> in_string \<and> byte = 0x7d then (depth - 1, in_string, False)
      else (depth, in_string, False))"

definition json_state_after :: "byte list \<Rightarrow> nat \<Rightarrow> nat \<Rightarrow> json_state" where
  "json_state_after data start i = foldl json_step (0, False, False) (slice data start (i + 1))"

definition closes_at :: "byte list \<Rightarrow> nat \<Rightarrow> nat \<Rightarrow> bool" where
  "closes_at data start i \<longleftrightarrow>
     start \<le> i \<and> i < length data \<and> fst (json_state_after data start i) = 0"

text \<open>
  A stand-in for the built-ins that is right on ASCII data: it decodes and encodes
  bytes below 128 one to one and knows no character beyond ASCII. It serves to
  evaluate the functions on concrete ASCII inputs.
\<close>

definition ascii_only_builtins :: py_builtins where
  "ascii_only_builtins =
     \<lparr> decode_ignore = (\<lambda>bs. map unat (filter (\<lambda>b. b < 128) bs)),
       decode_strict = (\<lambda>bs. if list_all (\<lambda>b. b < 128) bs then Some (map unat bs) else None),
       encode = map of_nat,
       printable_above_ascii = (\<lambda>c. False),
       alnum_above_ascii = (\<lambda>c. False),
       space_above_ascii = (\<lambda>c. False) \<rparr>"

section \<open>The segment catalog: \<open>scan_files\<close> of both programs\<close>

text \<open>
  File names and paths are strings. \<open>os.listdir\<close> is the given listing; the POSIX
  \<open>os.path.join\<close> and \<open>os.path.basename\<close> are written out. Python's \<open>int\<close> on a string
  is a built-in of the runtime and is a parameter, \<open>None\<close> standing for its
  \<open>ValueError\<close>. The key function of the sort runs on every element before any
  comparison, so one failing key raises out of \<open>scan_files\<close>, which has no handler,
  and out of \<open>main\<close>, which has none either. \<open>list.sort\<close> is stable, as \<open>sort_key\<close> is.
\<close>

definition endswith :: "string \<Rightarrow> string \<Rightarrow> bool" where
  "endswith s suffix \<longleftrightarrow> length suffix \<le> length s \<and> drop (length s - length suffix) s = suffix"

definition path_join :: "string \<Rightarrow> string \<Rightarrow> string" where
  "path_join directory filename =
     (if filename \<noteq> [] \<and> hd filename = CHR ''/'' then filename
      else if directory = [] \<or> last directory = CHR ''/'' then directory @ filename
      else directory @ ''/'' @ filename)"

definition basename :: "string \<Rightarrow> string" where
  "basename path = rev (takeWhile (\<lambda>c. c \<noteq> CHR ''/'') (rev path))"

definition split_dot_first :: "string \<Rightarrow> string" where
  "split_dot_first s = takeWhile (\<lambda>c. c \<noteq> CHR ''.'') s"

definition sequence_key :: "(string \<Rightarrow> int option) \<Rightarrow> string \<Rightarrow> int option" where
  "sequence_key py_int f = py_int (split_dot_first (basename f))"

definition scan_files :: "(string \<Rightarrow> int option) \<Rightarrow> string \<Rightarrow> string list \<Rightarrow> py_error + string list" where
  "scan_files py_int directory listing =
     (let qs_files = map (path_join directory) (filter (\<lambda>filename. endswith filename ''.qs'') listing)
      in if list_ex (\<lambda>f. sequence_key py_int f = None) qs_files then Inl ValueError
         else Inr (sort_key (\<lambda>f. the (sequence_key py_int f)) qs_files))"

text \<open>
  A stand-in for \<open>int\<close> that is right on strings of ASCII digits with an optional sign,
  and rejects every other string (Python accepts a few more: surrounding whitespace,
  underscores between digits, other decimal digits of Unicode).
\<close>

definition digit_value :: "char \<Rightarrow> int" where
  "digit_value c = int (of_char c) - 48"

definition is_digit :: "char \<Rightarrow> bool" where
  "is_digit c \<longleftrightarrow> (48::nat) \<le> of_char c \<and> (of_char c :: nat) \<le> 57"

definition digits_int :: "string \<Rightarrow> int option" where
  "digits_int s =
     (if s \<noteq> [] \<and> list_all is_digit s
      then Some (foldl (\<lambda>acc c. acc * 10 + digit_value c) 0 s) else None)"

definition ascii_int :: "string \<Rightarrow> int option" where
  "ascii_int s =
     (case s of
        [] \<Rightarrow> None
      | c # rest \<Rightarrow>
          if c = CHR ''-'' then map_option uminus (digits_int rest)
          else if c = CHR ''+'' then digits_int rest
          else digits_int s)"

section \<open>Strategy A: the marker scan of \<open>rabbitmq_recovery.py\<close>\<close>

text \<open>
  \<open>extract_and_publish_exact_markers\<close> works on \<open>data = file_data[64:]\<close>. Both marker
  loops run over \<open>range(len(data) - 4)\<close> and test four bytes; the \<open>elif\<close> branch tests
  the same byte value a second time (the code of the letter m is 0x6d, of t 0x74).
  \<open>message_at\<close> is the body of the loop over the start positions: it gives the message
  that is published for a start position, if any. Decoding with \<open>errors='replace'\<close>
  cannot fail, so every message found is counted.
\<close>

definition tag_at :: "byte list \<Rightarrow> byte \<Rightarrow> nat \<Rightarrow> bool" where
  "tag_at data b i \<longleftrightarrow>
     data ! i = b \<and> data ! (i + 1) = 0x00 \<and> data ! (i + 2) = 0x00 \<and> data ! (i + 3) = 0x00"

definition start_positions :: "byte list \<Rightarrow> nat list" where
  "start_positions data =
     filter (\<lambda>i. tag_at data 0x6d i \<or> tag_at data 109 i) [0..<length data - 4]"

definition end_positions :: "byte list \<Rightarrow> nat list" where
  "end_positions data =
     filter (\<lambda>i. tag_at data 0x74 i \<or> tag_at data 116 i) [0..<length data - 4]"

definition next_end :: "nat list \<Rightarrow> nat \<Rightarrow> nat option" where
  "next_end ends start_pos = List.find (\<lambda>end_pos. end_pos > start_pos) ends"

definition message_at :: "byte list \<Rightarrow> nat list \<Rightarrow> nat \<Rightarrow> byte list option" where
  "message_at data ends start_pos =
     (case next_end ends start_pos of
        None \<Rightarrow> None
      | Some next_end_pos \<Rightarrow>
          let json_start = py_find data [0x7b] start_pos (length data) in
          if json_start > int start_pos \<and> json_start < int next_end_pos then
            let json_end = py_rfind data [0x7d, 0x7d] (nat json_start) next_end_pos in
            if json_end > json_start
            then Some (slice data (nat json_start) (nat (json_end + 2)))
            else None
          else None)"

definition marker_messages :: "byte list \<Rightarrow> byte list list" where
  "marker_messages file_data =
     (let data = drop 64 file_data
      in List.map_filter (message_at data (end_positions data)) (start_positions data))"

text \<open>
  The file system is a partial map from paths to contents; a file that cannot be read
  raises inside the outer \<open>try\<close>, and the function returns 0.
\<close>

definition extract_and_publish_exact_markers :: "(string \<rightharpoonup> byte list) \<Rightarrow> string \<Rightarrow> nat" where
  "extract_and_publish_exact_markers fs file_path =
     (case fs file_path of None \<Rightarrow> 0 | Some file_data \<Rightarrow> length (marker_messages file_data))"

section \<open>The recovery pipeline: \<open>process_files\<close> and \<open>main\<close>\<close>

text \<open>
  \<open>process_files\<close> is the same in both programs but for the method it calls on each
  file, which is the parameter \<open>extract\<close>. The loop variable walks \<open>qs_files\<close>;
  \<open>qs_files.index(qs_file)\<close> is the first index of the path in the whole list. The
  result is \<open>total_published\<close>.
\<close>

record config =
  file_limit :: int
  message_limit :: int

fun list_index :: "'a list \<Rightarrow> 'a \<Rightarrow> nat" where
  "list_index [] x = 0"
| "list_index (y # ys) x = (if y = x then 0 else Suc (list_index ys x))"

fun process_loop :: "config \<Rightarrow> (string \<Rightarrow> nat) \<Rightarrow> string list \<Rightarrow> string list \<Rightarrow> nat \<Rightarrow> nat" where
  "process_loop cfg extract qs_files [] total_published = total_published"
| "process_loop cfg extract qs_files (qs_file # rest) total_published =
     (if file_limit cfg > 0 \<and> int (length (take (list_index qs_files qs_file + 1) qs_files)) > file_limit cfg
      then total_published
      else
        let count = extract qs_file;
            total_published = total_published + count
        in if message_limit cfg > 0 \<and> int total_published \<ge> message_limit cfg
           then total_published
           else process_loop cfg extract qs_files rest total_published)"

definition process_files :: "config \<Rightarrow> (string \<Rightarrow> nat) \<Rightarrow> string list \<Rightarrow> nat" where
  "process_files cfg extract qs_files = process_loop cfg extract qs_files qs_files 0"

text \<open>
  \<open>main\<close> of \<open>rabbitmq_recovery.py\<close>: \<open>scan_files\<close>, then \<open>process_files\<close>. Nothing
  catches an exception of \<open>scan_files\<close>.
\<close>

definition main_markers ::
  "(string \<Rightarrow> int option) \<Rightarrow> config \<Rightarrow> (string \<rightharpoonup> byte list) \<Rightarrow> string \<Rightarrow> string list \<Rightarrow> py_error + nat" where
  "main_markers py_int cfg fs directory listing =
     (case scan_files py_int directory listing of
        Inl e \<Rightarrow> Inl e
      | Inr qs_files \<Rightarrow> Inr (process_files cfg (extract_and_publish_exact_markers fs) qs_files))"

section \<open>The content validator of \<open>recovery_improved_json.py\<close>\<close>

text \<open>
  \<open>len(content[:200]) * 0.7\<close> is a product of IEEE 754 doubles. The double nearest to
  0.7 is \<open>6305039478318694 / 2^53\<close>, and an integer up to 200 is a double itself, so
  the product is the exact value \<open>n * 6305039478318694 / 2^53\<close> rounded to 53
  significant bits, ties to even. Doubles are kept scaled by \<open>2^53\<close> as natural
  numbers: \<open>excess_bits p\<close> is the number of low bits that do not fit,
  \<open>round_to_double\<close> rounds them away, and \<open>times_0_7 n\<close> is \<open>2^53\<close> times the double
  \<open>n * 0.7\<close>. Python compares an \<open>int\<close> with a \<open>float\<close> by their exact values.
\<close>

function excess_bits :: "nat \<Rightarrow> nat" where
  "excess_bits p = (if p < 2 ^ 53 then 0 else Suc (excess_bits (p div 2)))"
  by pat_completeness auto
termination
  by (relation "measure (\<lambda>p. p)") auto

declare excess_bits.simps [simp del]

definition round_to_double :: "nat \<Rightarrow> nat" where
  "round_to_double p =
     (let s = excess_bits p; q = p div 2 ^ s; r = p mod 2 ^ s
      in if 2 * r > 2 ^ s \<or> (2 * r = 2 ^ s \<and> odd q) then (q + 1) * 2 ^ s else q * 2 ^ s)"

definition times_0_7 :: "nat \<Rightarrow> nat" where
  "times_0_7 n = round_to_double (n * 6305039478318694)"

text \<open>
  A \<open>str\<close> is a list of code points. \<open>str.strip()\<close> removes the characters with
  \<open>isspace\<close> at both ends; \<open>str.isalnum()\<close> asks for at least one character and
  \<open>isalnum\<close> of every character. LF is 10, CR is 13, TAB is 9.
\<close>

definition str_strip :: "py_builtins \<Rightarrow> nat list \<Rightarrow> nat list" where
  "str_strip rt s = rev (dropWhile (isspace rt) (rev (dropWhile (isspace rt) s)))"

definition str_isalnum :: "py_builtins \<Rightarrow> nat list \<Rightarrow> bool" where
  "str_isalnum rt s \<longleftrightarrow> s \<noteq> [] \<and> list_all (isalnum rt) s"

definition is_valid_content :: "py_builtins \<Rightarrow> nat list \<Rightarrow> bool" where
  "is_valid_content rt content =
     (if length content < 10 then False
      else
        let printable = length (filter (\<lambda>c. isprintable rt c \<or> c \<in> {10, 13, 9}) (take 200 content))
        in if printable * 2 ^ 53 < times_0_7 (length (take 200 content)) then False
           else if str_isalnum rt (filter (\<lambda>c. c \<noteq> 13) (filter (\<lambda>c. c \<noteq> 10) (str_strip rt content)))
                   \<and> length content > 100
                then False
                else True)"

section \<open>Strategy B: the file loop of \<open>recovery_improved_json.py\<close>\<close>

text \<open>
  \<open>entry_accepted\<close> is the part of the loop body of
  \<open>extract_messages_from_erlang_entries\<close> after the entry has been sliced, up to the
  point where the message is published: it tells whether the entry is published.
  \<open>entries_loop\<close> is the \<open>while\<close> loop with its counter \<open>messages_published\<close>; an
  exception inside the outer \<open>try\<close> makes the function return 0.
\<close>

definition entry_accepted :: "py_builtins \<Rightarrow> byte list \<Rightarrow> bool" where
  "entry_accepted rt msg_data =
     (let msg_data = (if length msg_data > 0 \<and> msg_data ! 0 = 0x83 then drop 1 msg_data else msg_data);
          payload = extract_payload_from_erlang msg_data
      in if payload \<noteq> [] \<and> length payload > 10 then
           (case decode_strict rt (clean_message_content rt payload) of
              None \<Rightarrow> False
            | Some content_str \<Rightarrow> is_valid_content rt content_str)
         else False)"

function entries_loop :: "py_builtins \<Rightarrow> config \<Rightarrow> byte list \<Rightarrow> nat \<Rightarrow> nat \<Rightarrow> nat" where
  "entries_loop rt cfg file_data pos messages_published =
     (case read_entry file_data pos of
        Inl e \<Rightarrow> 0
      | Inr Stop \<Rightarrow> messages_published
      | Inr (Resync pos') \<Rightarrow> entries_loop rt cfg file_data pos' messages_published
      | Inr (Entry msg_data pos') \<Rightarrow>
          if entry_accepted rt msg_data then
            (if message_limit cfg > 0 \<and> int (messages_published + 1) \<ge> message_limit cfg
             then messages_published + 1
             else entries_loop rt cfg file_data pos' (messages_published + 1))
          else entries_loop rt cfg file_data pos' messages_published)"
  by pat_completeness auto
termination
proof (relation "measure (\<lambda>(rt, cfg, file_data, pos, messages_published). length file_data - pos)")
  show "wf (measure (\<lambda>(rt, cfg, file_data, pos, messages_published). length file_data - pos))"
    by simp
next
  fix rt :: py_builtins and cfg :: config and file_data :: "byte list" and pos n :: nat
    and b :: entry_step and pos' :: nat
  assume "read_entry file_data pos = Inr b" "b = Resync pos'"
  then show "((rt, cfg, file_data, pos', n), (rt, cfg, file_data, pos, n))
             \<in> measure (\<lambda>(rt, cfg, file_data, pos, messages_published). length file_data - pos)"
    by (auto simp: read_entry_def byte_at_def Let_def split: if_splits)
next
  fix rt :: py_builtins and cfg :: config and file_data :: "byte list" and pos n :: nat
    and b :: entry_step and msg_data :: "byte list" and pos' :: nat
  assume "read_entry file_data pos = Inr b" "b = Entry msg_data pos'"
  then show "((rt, cfg, file_data, pos', n + 1), (rt, cfg, file_data, pos, n))
             \<in> measure (\<lambda>(rt, cfg, file_data, pos, messages_published). length file_data - pos)"
    by (auto simp: read_entry_def byte_at_def Let_def split: if_splits)
next
  fix rt :: py_builtins and cfg :: config and file_data :: "byte list" and pos n :: nat
    and b :: entry_step and msg_data :: "byte list" and pos' :: nat
  assume "read_entry file_data pos = Inr b" "b = Entry msg_data pos'"
  then show "((rt, cfg, file_data, pos', n), (rt, cfg, file_data, pos, n))
             \<in> measure (\<lambda>(rt, cfg, file_data, pos, messages_published). length file_data - pos)"
    by (auto simp: read_entry_def byte_at_def Let_def split: if_splits)
qed

declare entries_loop.simps [simp del]

definition extract_messages_from_erlang_entries ::
  "py_builtins \<Rightarrow> config \<Rightarrow> (string \<rightharpoonup> byte list) \<Rightarrow> string \<Rightarrow> nat" where
  "extract_messages_from_erlang_entries rt cfg fs file_path =
     (case fs file_path of None \<Rightarrow> 0 | Some file_data \<Rightarrow> entries_loop rt cfg file_data 64 0)"

section \<open>Slices\<close>

lemma length_slice: "length (slice xs i j) = min (j - i) (length xs - i)"
  by (simp add: slice_def)

lemma nth_slice: "k < j - i \<Longrightarrow> i + k < length xs \<Longrightarrow> slice xs i j ! k = xs ! (i + k)"
  by (simp add: slice_def)

lemma slice_four:
  assumes "pos + 4 \<le> length xs"
  shows "slice xs pos (pos + 4) = [xs ! pos, xs ! (pos + 1), xs ! (pos + 2), xs ! (pos + 3)]"
proof (rule nth_equalityI)
  show "length (slice xs pos (pos + 4)) = length [xs ! pos, xs ! (pos + 1), xs ! (pos + 2), xs ! (pos + 3)]"
    using assms by (simp add: length_slice)
next
  fix k assume "k < length (slice xs pos (pos + 4))"
  then have k: "k < 4" using assms by (simp add: length_slice)
  then have "k = 0 \<or> k = 1 \<or> k = 2 \<or> k = 3" by arith
  then show "slice xs pos (pos + 4) ! k = [xs ! pos, xs ! (pos + 1), xs ! (pos + 2), xs ! (pos + 3)] ! k"
    using assms by (auto simp: nth_slice)
qed

lemma from_bytes_big_header:
  "pos + 4 \<le> length xs \<Longrightarrow> from_bytes_big (slice xs pos (pos + 4)) = be32_at xs pos"
  by (simp add: slice_four from_bytes_big_def be32_at_def)

lemma read_entry_no_error: "read_entry d pos \<noteq> Inl e"
  by (simp add: read_entry_def byte_at_def Let_def)

section \<open>Entry decoder\<close>

text \<open>
  C1. For every file buffer and cursor position the entry decoder never indexes past the
  end of the buffer (no \<open>IndexError\<close>). With fewer than 8 bytes left the loop stops.
  When the big-endian size in the header is zero or above 10 MiB the cursor moves by
  exactly 8. Otherwise the cursor passes the header; when fewer than \<open>size\<close> bytes
  remain the loop stops without an entry, else the entry body is exactly the \<open>size\<close>
  bytes after the header and the cursor moves on by \<open>size\<close>.
\<close>

theorem entry_decoder_in_bounds:
  "(\<forall>e. read_entry d pos \<noteq> Inl e) \<and>
   (length d < pos + 8 \<longrightarrow> read_entry d pos = Inr Stop) \<and>
   (pos + 8 \<le> length d \<and> (be32_at d pos = 0 \<or> 10 * 1024 * 1024 < be32_at d pos)
      \<longrightarrow> read_entry d pos = Inr (Resync (pos + 8))) \<and>
   (pos + 8 \<le> length d \<and> 0 < be32_at d pos \<and> be32_at d pos \<le> 10 * 1024 * 1024
      \<and> length d < pos + 8 + be32_at d pos
      \<longrightarrow> read_entry d pos = Inr Stop) \<and>
   (pos + 8 \<le> length d \<and> 0 < be32_at d pos \<and> be32_at d pos \<le> 10 * 1024 * 1024
      \<and> pos + 8 + be32_at d pos \<le> length d
      \<longrightarrow> (\<exists>body. read_entry d pos = Inr (Entry body (pos + 8 + be32_at d pos))
             \<and> length body = be32_at d pos
             \<and> (\<forall>k < be32_at d pos. body ! k = d ! (pos + 8 + k))))"
proof (intro conjI allI impI)
  fix e show "read_entry d pos \<noteq> Inl e" by (rule read_entry_no_error)
next
  assume "length d < pos + 8"
  then show "read_entry d pos = Inr Stop" by (simp add: read_entry_def)
next
  assume a: "pos + 8 \<le> length d \<and> (be32_at d pos = 0 \<or> 10 * 1024 * 1024 < be32_at d pos)"
  then have "from_bytes_big (slice d pos (pos + 4)) = be32_at d pos"
    by (simp add: from_bytes_big_header)
  with a show "read_entry d pos = Inr (Resync (pos + 8))"
    by (auto simp: read_entry_def byte_at_def Let_def)
next
  assume a: "pos + 8 \<le> length d \<and> 0 < be32_at d pos \<and> be32_at d pos \<le> 10 * 1024 * 1024
      \<and> length d < pos + 8 + be32_at d pos"
  then have "from_bytes_big (slice d pos (pos + 4)) = be32_at d pos"
    by (simp add: from_bytes_big_header)
  with a show "read_entry d pos = Inr Stop"
    by (auto simp: read_entry_def byte_at_def Let_def)
next
  assume a: "pos + 8 \<le> length d \<and> 0 < be32_at d pos \<and> be32_at d pos \<le> 10 * 1024 * 1024
      \<and> pos + 8 + be32_at d pos \<le> length d"
  then have h: "from_bytes_big (slice d pos (pos + 4)) = be32_at d pos"
    by (simp add: from_bytes_big_header)
  let ?body = "slice d (pos + 8) (pos + 8 + be32_at d pos)"
  from a h have "read_entry d pos = Inr (Entry ?body (pos + 8 + be32_at d pos))"
    by (auto simp: read_entry_def byte_at_def Let_def)
  moreover from a have "length ?body = be32_at d pos"
    by (auto simp: length_slice)
  moreover from a have "\<forall>k < be32_at d pos. ?body ! k = d ! (pos + 8 + k)"
    by (simp add: nth_slice)
  ultimately show "\<exists>body. read_entry d pos = Inr (Entry body (pos + 8 + be32_at d pos))
             \<and> length body = be32_at d pos
             \<and> (\<forall>k < be32_at d pos. body ! k = d ! (pos + 8 + k))"
    by blast
qed

theorem entry_decoder_in_bounds_witness:
  "read_entry [0, 0, 0, 9, 0, 0, 0] 0 = Inr Stop \<and>
   read_entry [0, 0, 0, 0, 0, 0, 0, 0, 0x41, 0x42] 0 = Inr (Resync 8) \<and>
   read_entry [0, 0xa0, 0, 1, 0, 0, 0, 0, 0x41, 0x42] 0 = Inr (Resync 8) \<and>
   read_entry [0, 0, 0, 9, 0, 0, 0, 0, 0x41, 0x42] 0 = Inr Stop \<and>
   (\<exists>body. read_entry [0, 0, 0, 2, 0, 0, 0, 0, 0x41, 0x42] 0 = Inr (Entry body 10)
      \<and> length body = 2 \<and> body ! 0 = 0x41 \<and> body ! 1 = 0x42)"
  using entry_decoder_in_bounds [of "[0, 0, 0, 9, 0, 0, 0]" 0]
    entry_decoder_in_bounds [of "[0, 0, 0, 0, 0, 0, 0, 0, 0x41, 0x42]" 0]
    entry_decoder_in_bounds [of "[0, 0xa0, 0, 1, 0, 0, 0, 0, 0x41, 0x42]" 0]
    entry_decoder_in_bounds [of "[0, 0, 0, 9, 0, 0, 0, 0, 0x41, 0x42]" 0]
    entry_decoder_in_bounds [of "[0, 0, 0, 2, 0, 0, 0, 0, 0x41, 0x42]" 0]
  by (force simp: be32_at_def)


section \<open>The scan of the payload extractor\<close>

lemma payload_step_pos:
  assumes "pos + 5 < length data"
  shows "fst (payload_step data pos largest) =
     (if is_candidate data pos then pos + 5 + binary_ext_length data pos else pos + 1)"
proof -
  from assms have "from_bytes_big (slice data (pos + 1) (pos + 5)) = binary_ext_length data pos"
    using from_bytes_big_header [of "pos + 1" data]
    by (simp add: binary_ext_length_def add.commute add.left_commute)
  then show ?thesis using assms
    by (auto simp: payload_step_def is_candidate_def Let_def)
qed

lemma payload_step_largest:
  assumes "pos + 5 < length data"
  shows "snd (payload_step data pos largest) =
     (if qualifies data pos \<and> length largest < length (candidate_body data pos)
      then candidate_body data pos else largest)"
proof -
  from assms have "from_bytes_big (slice data (pos + 1) (pos + 5)) = binary_ext_length data pos"
    using from_bytes_big_header [of "pos + 1" data]
    by (simp add: binary_ext_length_def add.commute add.left_commute)
  then show ?thesis using assms
    by (auto simp: payload_step_def is_candidate_def qualifies_def candidate_body_def Let_def)
qed


lemma payload_loop_fold:
  "payload_loop data pos largest = foldl keep_larger largest (scan_candidates data pos)"
proof (induction data pos largest rule: payload_loop.induct)
  case (1 data pos largest)
  show ?case
  proof (cases "pos + 5 < length data")
    case False
    then show ?thesis by (simp add: payload_loop.simps [of data pos] scan_candidates.simps [of data pos])
  next
    case True
    have "payload_loop data pos largest =
            payload_loop data (fst (payload_step data pos largest)) (snd (payload_step data pos largest))"
      using True by (simp add: payload_loop.simps [of data pos])
    also have "\<dots> = foldl keep_larger (snd (payload_step data pos largest))
                 (scan_candidates data (fst (payload_step data pos largest)))"
      using "1.IH" [OF True] .
    also have "\<dots> = foldl keep_larger largest (scan_candidates data pos)"
      using True
      by (simp add: scan_candidates.simps [of data pos] payload_step_pos payload_step_largest
            qualifies_def keep_larger_def)
    finally show ?thesis .
  qed
qed

lemma scan_candidates_qualify:
  "c \<in> set (scan_candidates data pos) \<Longrightarrow> \<exists>p\<ge>pos. qualifies data p \<and> c = candidate_body data p"
proof (induction data pos rule: scan_candidates.induct)
  case (1 data pos)
  show ?case
  proof (cases "pos + 5 < length data")
    case False
    with "1.prems" show ?thesis by (simp add: scan_candidates.simps [of data pos])
  next
    case True
    show ?thesis
    proof (cases "is_candidate data pos")
      case False
      with True "1.prems" have "c \<in> set (scan_candidates data (pos + 1))"
        by (simp add: scan_candidates.simps [of data pos])
      from "1.IH"(2) [OF True False this] obtain p where "pos + 1 \<le> p" "qualifies data p \<and> c = candidate_body data p"
        by blast
      then have "pos \<le> p \<and> qualifies data p \<and> c = candidate_body data p" by simp
      then show ?thesis by blast
    next
      case cand: True
      from True cand "1.prems"
      have "qualifies data pos \<and> c = candidate_body data pos
            \<or> c \<in> set (scan_candidates data (pos + 5 + binary_ext_length data pos))"
        by (auto simp: scan_candidates.simps [of data pos] qualifies_def split: if_splits)
      then show ?thesis
      proof
        assume "qualifies data pos \<and> c = candidate_body data pos"
        then show ?thesis by blast
      next
        assume "c \<in> set (scan_candidates data (pos + 5 + binary_ext_length data pos))"
        from "1.IH"(1) [OF True cand this] obtain p where
          "pos + 5 + binary_ext_length data pos \<le> p" "qualifies data p \<and> c = candidate_body data p"
          by blast
        then have "pos \<le> p \<and> qualifies data p \<and> c = candidate_body data p" by simp
        then show ?thesis by blast
      qed
    qed
  qed
qed

lemma length_candidate_body:
  "is_candidate data p \<Longrightarrow> length (candidate_body data p) = binary_ext_length data p"
  by (auto simp: is_candidate_def candidate_body_def length_slice)

lemma foldl_keep_larger_ge:
  "length best \<le> length (foldl keep_larger best cs)
   \<and> (\<forall>c\<in>set cs. length c \<le> length (foldl keep_larger best cs))"
proof (induction cs rule: rev_induct)
  case Nil
  then show ?case by simp
next
  case (snoc x xs)
  then show ?case by (simp add: keep_larger_def) (meson le_trans less_imp_le linorder_not_less)
qed

lemma foldl_keep_larger:
  "(foldl keep_larger best cs = best \<and> (\<forall>c\<in>set cs. length c \<le> length best))
   \<or> (\<exists>pre post. cs = pre @ foldl keep_larger best cs # post
        \<and> length best < length (foldl keep_larger best cs)
        \<and> (\<forall>c\<in>set pre. length c < length (foldl keep_larger best cs))
        \<and> (\<forall>c\<in>set post. length c \<le> length (foldl keep_larger best cs)))"
proof (induction cs rule: rev_induct)
  case Nil
  then show ?case by simp
next
  case (snoc x xs)
  let ?r = "foldl keep_larger best xs"
  show ?case
  proof (cases "length ?r < length x")
    case True
    then have r: "foldl keep_larger best (xs @ [x]) = x" by (simp add: keep_larger_def)
    from True foldl_keep_larger_ge [of best xs]
    have "\<forall>c\<in>set xs. length c < length x" and "length best < length x"
      by (auto intro: le_less_trans)
    with r have "xs @ [x] = xs @ foldl keep_larger best (xs @ [x]) # []
        \<and> length best < length (foldl keep_larger best (xs @ [x]))
        \<and> (\<forall>c\<in>set xs. length c < length (foldl keep_larger best (xs @ [x])))
        \<and> (\<forall>c\<in>set []. length c \<le> length (foldl keep_larger best (xs @ [x])))"
      by simp
    then show ?thesis by blast
  next
    case False
    then have r: "foldl keep_larger best (xs @ [x]) = ?r" by (simp add: keep_larger_def)
    from snoc show ?thesis
    proof
      assume "?r = best \<and> (\<forall>c\<in>set xs. length c \<le> length best)"
      with False r show ?thesis by auto
    next
      assume "\<exists>pre post. xs = pre @ ?r # post \<and> length best < length ?r
        \<and> (\<forall>c\<in>set pre. length c < length ?r) \<and> (\<forall>c\<in>set post. length c \<le> length ?r)"
      then obtain pre post where p: "xs = pre @ ?r # post" "length best < length ?r"
        "\<forall>c\<in>set pre. length c < length ?r" "\<forall>c\<in>set post. length c \<le> length ?r"
        by blast
      from p(1) have "xs @ [x] = pre @ ?r # (post @ [x])" by (metis append_Cons append_assoc)
      moreover from p(4) False have "\<forall>c\<in>set (post @ [x]). length c \<le> length ?r" by auto
      ultimately have "xs @ [x] = pre @ foldl keep_larger best (xs @ [x]) # (post @ [x])
        \<and> length best < length (foldl keep_larger best (xs @ [x]))
        \<and> (\<forall>c\<in>set pre. length c < length (foldl keep_larger best (xs @ [x])))
        \<and> (\<forall>c\<in>set (post @ [x]). length c \<le> length (foldl keep_larger best (xs @ [x])))"
        using p(2,3) r by simp
      then show ?thesis by blast
    qed
  qed
qed



lemma payload_step_two_first:
  assumes "length b1 = 15" "length b2 = 40"
  shows "payload_step ([0x6d, 0, 0, 0, 15] @ b1 @ [0x6d, 0, 0, 0, 40] @ b2) 0 largest
         = (20, if length largest < 15 \<and> 10 < printable_count b1 then b1 else largest)"
  using assms by (simp add: payload_step_def slice_def from_bytes_big_def Let_def)

lemma payload_step_two_second:
  assumes "length b1 = 15" "length b2 = 40"
  shows "payload_step ([0x6d, 0, 0, 0, 15] @ b1 @ [0x6d, 0, 0, 0, 40] @ b2) 20 largest
         = (65, if length largest < 40 \<and> 10 < printable_count b2 then b2 else largest)"
  using assms by (simp add: payload_step_def slice_def from_bytes_big_def Let_def nth_append)

lemma two_candidates_short_first:
  assumes "length b1 = 15" "length b2 = 40" "10 < printable_count b2"
  shows "extract_payload_from_erlang ([0x6d, 0, 0, 0, 15] @ b1 @ [0x6d, 0, 0, 0, 40] @ b2) = b2"
proof -
  let ?d = "[0x6d, 0, 0, 0, 15] @ b1 @ [0x6d, 0, 0, 0, 40] @ b2"
  have len: "length ?d = 65" using assms by simp
  let ?l1 = "if length ([]::byte list) < 15 \<and> 10 < printable_count b1 then b1 else []"
  have l1: "length ?l1 < 40" using assms by simp
  have "payload_loop ?d 0 [] = payload_loop ?d 20 ?l1"
    using len by (subst payload_loop.simps) (simp only: payload_step_two_first [OF assms(1,2)] fst_conv snd_conv, simp)
  also have "\<dots> = payload_loop ?d 65 b2"
    using len l1 assms(3)
    by (subst payload_loop.simps) (simp only: payload_step_two_second [OF assms(1,2)] fst_conv snd_conv, simp)
  also have "\<dots> = b2"
    using len by (subst payload_loop.simps) simp
  finally show ?thesis by (simp add: extract_payload_from_erlang_def)
qed

lemma payload_step_two_first':
  assumes "length b1 = 15" "length b2 = 40"
  shows "payload_step ([0x6d, 0, 0, 0, 40] @ b2 @ [0x6d, 0, 0, 0, 15] @ b1) 0 largest
         = (45, if length largest < 40 \<and> 10 < printable_count b2 then b2 else largest)"
  using assms by (simp add: payload_step_def slice_def from_bytes_big_def Let_def)

lemma payload_step_two_second':
  assumes "length b1 = 15" "length b2 = 40"
  shows "payload_step ([0x6d, 0, 0, 0, 40] @ b2 @ [0x6d, 0, 0, 0, 15] @ b1) 45 largest
         = (65, if length largest < 15 \<and> 10 < printable_count b1 then b1 else largest)"
  using assms by (simp add: payload_step_def slice_def from_bytes_big_def Let_def nth_append)

lemma two_candidates_long_first:
  assumes "length b1 = 15" "length b2 = 40" "10 < printable_count b2"
  shows "extract_payload_from_erlang ([0x6d, 0, 0, 0, 40] @ b2 @ [0x6d, 0, 0, 0, 15] @ b1) = b2"
proof -
  let ?d = "[0x6d, 0, 0, 0, 40] @ b2 @ [0x6d, 0, 0, 0, 15] @ b1"
  have len: "length ?d = 65" using assms by simp
  have "payload_loop ?d 0 [] = payload_loop ?d 45 b2"
    using len assms(3)
    by (subst payload_loop.simps) (simp only: payload_step_two_first' [OF assms(1,2)] fst_conv snd_conv, simp)
  also have "\<dots> = payload_loop ?d 65 b2"
    using len assms(2)
    by (subst payload_loop.simps) (simp only: payload_step_two_second' [OF assms(1,2)] fst_conv snd_conv, simp)
  also have "\<dots> = b2"
    using len by (subst payload_loop.simps) simp
  finally show ?thesis by (simp add: extract_payload_from_erlang_def)
qed


lemma payload_loop_no_tag:
  "(\<And>p. pos \<le> p \<Longrightarrow> p + 5 < length data \<Longrightarrow> data ! p \<noteq> 0x6d)
   \<Longrightarrow> payload_loop data pos largest = largest"
proof (induction data pos largest rule: payload_loop.induct)
  case (1 data pos largest)
  show ?case
  proof (cases "pos + 5 < length data")
    case False
    then show ?thesis by (simp add: payload_loop.simps [of data pos])
  next
    case True
    with "1.prems" [of pos] have tag: "data ! pos \<noteq> 0x6d" by simp
    then have step: "payload_step data pos largest = (pos + 1, largest)"
      by (simp add: payload_step_def)
    have "payload_loop data (pos + 1) largest = largest"
      using "1.IH" [OF True] "1.prems" step by simp
    with True step show ?thesis by (simp add: payload_loop.simps [of data pos])
  qed
qed

lemma D3_step:
  "payload_step ([0x6d, 0, 0, 0, 15, 0x41, 0x6d, 0, 0, 0, 40] @ replicate 40 0x41) 0 []
   = (20, [0x41, 0x6d, 0, 0, 0, 40] @ replicate 9 0x41)"
  by (simp add: payload_step_def slice_def from_bytes_big_def printable_count_def Let_def)

lemma D3_result:
  "extract_payload_from_erlang ([0x6d, 0, 0, 0, 15, 0x41, 0x6d, 0, 0, 0, 40] @ replicate 40 0x41)
   = [0x41, 0x6d, 0, 0, 0, 40] @ replicate 9 0x41"
proof -
  let ?d = "[0x6d, 0, 0, 0, 15, 0x41, 0x6d, 0, 0, 0, 40] @ replicate 40 (0x41 :: byte)"
  let ?b = "([0x41, 0x6d, 0, 0, 0, 40] @ replicate 9 (0x41 :: byte))"
  have "payload_loop ?d 0 [] = payload_loop ?d 20 ?b"
    by (subst payload_loop.simps) (simp only: D3_step fst_conv snd_conv, simp)
  also have "\<dots> = ?b"
  proof (rule payload_loop_no_tag)
    fix p :: nat assume "20 \<le> p" "p + 5 < length ?d"
    then show "?d ! p \<noteq> 0x6d" by (simp add: nth_append)
  qed
  finally show ?thesis by (simp add: extract_payload_from_erlang_def)
qed


lemma scan_candidates_length:
  assumes "c \<in> set (scan_candidates data pos)"
  shows "10 \<le> length c"
proof -
  from scan_candidates_qualify [OF assms] obtain p where "qualifies data p" "c = candidate_body data p"
    by blast
  then show ?thesis
    by (simp add: qualifies_def length_candidate_body) (simp add: is_candidate_def)
qed

lemma extract_first_largest:
  assumes "scan_candidates data 0 \<noteq> []"
  shows "\<exists>pre post. scan_candidates data 0 = pre @ extract_payload_from_erlang data # post
           \<and> (\<forall>c\<in>set pre. length c < length (extract_payload_from_erlang data))
           \<and> (\<forall>c\<in>set post. length c \<le> length (extract_payload_from_erlang data))"
proof -
  let ?cs = "scan_candidates data 0"
  have r: "extract_payload_from_erlang data = foldl keep_larger [] ?cs"
    by (simp add: extract_payload_from_erlang_def payload_loop_fold)
  from assms obtain c where c: "c \<in> set ?cs" by (cases ?cs) auto
  then have "10 \<le> length c" by (rule scan_candidates_length)
  then have "\<not> length c \<le> length ([]::byte list)" by auto
  with c have "\<not> (\<forall>c\<in>set ?cs. length c \<le> length ([]::byte list))" by blast
  with foldl_keep_larger [of "[]" ?cs] show ?thesis unfolding r by blast
qed

section \<open>Term payload extractor: the scan position\<close>

text \<open>
  C7, as amended. At a scan position (inside the loop guard) the position moves past
  tag, length and body exactly when the byte is the \<open>BINARY_EXT\<close> tag, the length is in
  \<open>[10, 1 MiB]\<close> and the body fits the buffer, whatever the printable-byte check says;
  at every other position it moves by exactly one byte.
\<close>

theorem scan_advances_past_candidate:
  "pos + 5 < length data \<Longrightarrow>
   fst (payload_step data pos largest) =
     (if is_candidate data pos then pos + 5 + binary_ext_length data pos else pos + 1)"
  by (rule payload_step_pos)

theorem scan_advances_past_candidate_witness:
  "0 + 5 < length [0x6d, 0, 0, 0, 10, 0, 0, 0, 0, 0, 0, 0, 0, 0, 0, 0 :: byte] \<and>
   fst (payload_step [0x6d, 0, 0, 0, 10, 0, 0, 0, 0, 0, 0, 0, 0, 0, 0, 0] 0 []) = 15 \<and>
   1 + 5 < length [0x6d, 0, 0, 0, 10, 0, 0, 0, 0, 0, 0, 0, 0, 0, 0, 0 :: byte] \<and>
   fst (payload_step [0x6d, 0, 0, 0, 10, 0, 0, 0, 0, 0, 0, 0, 0, 0, 0, 0] 1 []) = 2"
  using scan_advances_past_candidate [of 0 "[0x6d, 0, 0, 0, 10, 0, 0, 0, 0, 0, 0, 0, 0, 0, 0, 0]" "[]"]
    scan_advances_past_candidate [of 1 "[0x6d, 0, 0, 0, 10, 0, 0, 0, 0, 0, 0, 0, 0, 0, 0, 0]" "[]"]
  by (simp add: is_candidate_def binary_ext_length_def be32_at_def)

text \<open>
  The claim as written fails: a candidate with no printable byte at all is not accepted,
  and the scan still jumps over its 15 bytes.
\<close>

theorem scan_advance_counterexample:
  "0 + 5 < length [0x6d, 0, 0, 0, 10, 0, 0, 0, 0, 0, 0, 0, 0, 0, 0, 0 :: byte]
   \<and> \<not> qualifies [0x6d, 0, 0, 0, 10, 0, 0, 0, 0, 0, 0, 0, 0, 0, 0, 0] 0
   \<and> fst (payload_step [0x6d, 0, 0, 0, 10, 0, 0, 0, 0, 0, 0, 0, 0, 0, 0, 0] 0 []) = 15"
  by (simp add: qualifies_def is_candidate_def candidate_body_def binary_ext_length_def be32_at_def
        printable_count_def payload_step_def slice_def from_bytes_big_def Let_def)

section \<open>Term payload extractor: the result\<close>

text \<open>
  C3, as amended. The candidates of the scan are qualifying candidates of the buffer.
  When the scan meets none, the result is empty; otherwise the result is the first
  candidate of the scan that no other candidate of the scan exceeds in length. A buffer
  made of a 15-byte and a 40-byte candidate one after the other, both with more than 10
  printable bytes, gives the 40-byte one, in either order.
\<close>

theorem largest_scanned_candidate:
  "(\<forall>c\<in>set (scan_candidates data 0). \<exists>p. qualifies data p \<and> c = candidate_body data p) \<and>
   (scan_candidates data 0 = [] \<longrightarrow> extract_payload_from_erlang data = []) \<and>
   (scan_candidates data 0 \<noteq> [] \<longrightarrow>
      (\<exists>pre post. scan_candidates data 0 = pre @ extract_payload_from_erlang data # post
         \<and> (\<forall>c\<in>set pre. length c < length (extract_payload_from_erlang data))
         \<and> (\<forall>c\<in>set post. length c \<le> length (extract_payload_from_erlang data)))) \<and>
   (length b1 = 15 \<and> length b2 = 40 \<and> 10 < printable_count b1 \<and> 10 < printable_count b2 \<longrightarrow>
      extract_payload_from_erlang ([0x6d, 0, 0, 0, 15] @ b1 @ [0x6d, 0, 0, 0, 40] @ b2) = b2 \<and>
      extract_payload_from_erlang ([0x6d, 0, 0, 0, 40] @ b2 @ [0x6d, 0, 0, 0, 15] @ b1) = b2)"
proof (intro conjI ballI impI)
  fix c assume "c \<in> set (scan_candidates data 0)"
  from scan_candidates_qualify [OF this]
  show "\<exists>p. qualifies data p \<and> c = candidate_body data p" by blast
next
  assume "scan_candidates data 0 = []"
  then show "extract_payload_from_erlang data = []"
    by (simp add: extract_payload_from_erlang_def payload_loop_fold)
next
  assume "scan_candidates data 0 \<noteq> []"
  then show "\<exists>pre post. scan_candidates data 0 = pre @ extract_payload_from_erlang data # post
         \<and> (\<forall>c\<in>set pre. length c < length (extract_payload_from_erlang data))
         \<and> (\<forall>c\<in>set post. length c \<le> length (extract_payload_from_erlang data))"
    by (rule extract_first_largest)
next
  assume "length b1 = 15 \<and> length b2 = 40 \<and> 10 < printable_count b1 \<and> 10 < printable_count b2"
  then have "length b1 = 15" "length b2 = 40" "10 < printable_count b2" by simp_all
  then show "extract_payload_from_erlang ([0x6d, 0, 0, 0, 15] @ b1 @ [0x6d, 0, 0, 0, 40] @ b2) = b2"
    by (rule two_candidates_short_first)
next
  assume "length b1 = 15 \<and> length b2 = 40 \<and> 10 < printable_count b1 \<and> 10 < printable_count b2"
  then have "length b1 = 15" "length b2 = 40" "10 < printable_count b2" by simp_all
  then show "extract_payload_from_erlang ([0x6d, 0, 0, 0, 40] @ b2 @ [0x6d, 0, 0, 0, 15] @ b1) = b2"
    by (rule two_candidates_long_first)
qed

theorem largest_scanned_candidate_witness:
  "scan_candidates ([0x6d, 0, 0, 0, 11] @ replicate 12 0x41) 0 = [replicate 11 0x41] \<and>
   extract_payload_from_erlang ([0x6d, 0, 0, 0, 11] @ replicate 12 0x41) = replicate 11 0x41 \<and>
   length (replicate 15 (0x41 :: byte)) = 15 \<and> length (replicate 40 (0x42 :: byte)) = 40 \<and>
   10 < printable_count (replicate 15 0x41) \<and> 10 < printable_count (replicate 40 0x42) \<and>
   extract_payload_from_erlang
     ([0x6d, 0, 0, 0, 15] @ replicate 15 0x41 @ [0x6d, 0, 0, 0, 40] @ replicate 40 0x42)
     = replicate 40 0x42 \<and>
   extract_payload_from_erlang
     ([0x6d, 0, 0, 0, 40] @ replicate 40 0x42 @ [0x6d, 0, 0, 0, 15] @ replicate 15 0x41)
     = replicate 40 0x42"
proof -
  let ?d = "[0x6d, 0, 0, 0, 11] @ replicate 12 (0x41 :: byte)"
  have c0: "is_candidate ?d 0" and l0: "binary_ext_length ?d 0 = 11"
    by (simp_all add: is_candidate_def binary_ext_length_def be32_at_def)
  have b0: "candidate_body ?d 0 = replicate 11 0x41"
    unfolding candidate_body_def l0 by (simp add: slice_def)
  have s16: "scan_candidates ?d 16 = []"
    by (subst scan_candidates.simps) simp
  have "scan_candidates ?d 0 = [replicate 11 0x41] @ scan_candidates ?d 16"
    using c0 l0 b0 by (subst scan_candidates.simps) (simp add: printable_count_def)
  with s16 have sc: "scan_candidates ?d 0 = [replicate 11 0x41]"
    by simp
  have pc: "10 < printable_count (replicate 15 0x41)" "10 < printable_count (replicate 40 0x42)"
    by (simp_all add: printable_count_def)
  from largest_scanned_candidate [of ?d "replicate 15 0x41" "replicate 40 0x42"] sc
  obtain pre post where "[replicate 11 (0x41 :: byte)] = pre @ extract_payload_from_erlang ?d # post"
    by auto
  then have r: "extract_payload_from_erlang ?d = replicate 11 0x41"
    by (cases pre) auto
  from largest_scanned_candidate [of ?d "replicate 15 0x41" "replicate 40 0x42"] pc
  have "extract_payload_from_erlang
     ([0x6d, 0, 0, 0, 15] @ replicate 15 0x41 @ [0x6d, 0, 0, 0, 40] @ replicate 40 0x42)
     = replicate 40 0x42 \<and>
   extract_payload_from_erlang
     ([0x6d, 0, 0, 0, 40] @ replicate 40 0x42 @ [0x6d, 0, 0, 0, 15] @ replicate 15 0x41)
     = replicate 40 0x42"
    by simp
  with sc r pc show ?thesis by simp
qed

text \<open>
  The claim as written fails on overlapping candidates: the buffer below holds a
  qualifying candidate of 15 bytes at position 0 and one of 40 bytes at position 6,
  inside the body of the first; the scan jumps over it and returns the 15 bytes.
\<close>

theorem largest_candidate_counterexample:
  "qualifies ([0x6d, 0, 0, 0, 15, 0x41, 0x6d, 0, 0, 0, 40] @ replicate 40 0x41) 0 \<and>
   qualifies ([0x6d, 0, 0, 0, 15, 0x41, 0x6d, 0, 0, 0, 40] @ replicate 40 0x41) 6 \<and>
   length (candidate_body ([0x6d, 0, 0, 0, 15, 0x41, 0x6d, 0, 0, 0, 40] @ replicate 40 0x41) 0) = 15 \<and>
   length (candidate_body ([0x6d, 0, 0, 0, 15, 0x41, 0x6d, 0, 0, 0, 40] @ replicate 40 0x41) 6) = 40 \<and>
   length (extract_payload_from_erlang ([0x6d, 0, 0, 0, 15, 0x41, 0x6d, 0, 0, 0, 40] @ replicate 40 0x41)) = 15"
  unfolding D3_result
  by (simp add: qualifies_def is_candidate_def candidate_body_def binary_ext_length_def
        be32_at_def printable_count_def slice_def)

section \<open>Least and greatest index\<close>

lemma first_index_Some_iff:
  "first_index P lo hi = Some i \<longleftrightarrow>
     lo \<le> i \<and> i < hi \<and> P i \<and> (\<forall>j. lo \<le> j \<and> j < i \<longrightarrow> \<not> P j)"
proof
  assume "first_index P lo hi = Some i"
  then obtain k where k: "k < length [lo..<hi]" "P ([lo..<hi] ! k)" "i = [lo..<hi] ! k"
      "\<forall>j<k. \<not> P ([lo..<hi] ! j)"
    unfolding first_index_def find_Some_iff by blast
  from k(1) have kl: "lo + k < hi" by simp
  with k(3) have i: "i = lo + k" by simp
  have "\<forall>j. lo \<le> j \<and> j < i \<longrightarrow> \<not> P j"
  proof (intro allI impI)
    fix j assume j: "lo \<le> j \<and> j < i"
    then have "j - lo < k" using i by arith
    with k(4) have "\<not> P ([lo..<hi] ! (j - lo))" by blast
    moreover have "[lo..<hi] ! (j - lo) = j" using j i kl by simp
    ultimately show "\<not> P j" by simp
  qed
  with k(2) i kl show "lo \<le> i \<and> i < hi \<and> P i \<and> (\<forall>j. lo \<le> j \<and> j < i \<longrightarrow> \<not> P j)"
    by simp
next
  assume a: "lo \<le> i \<and> i < hi \<and> P i \<and> (\<forall>j. lo \<le> j \<and> j < i \<longrightarrow> \<not> P j)"
  have "i - lo < length [lo..<hi]" using a by simp arith
  moreover have "[lo..<hi] ! (i - lo) = i" using a by simp
  moreover have "\<forall>j<i - lo. \<not> P ([lo..<hi] ! j)"
  proof (intro allI impI)
    fix j assume j: "j < i - lo"
    then have "lo + j < hi" using a by arith
    then have "[lo..<hi] ! j = lo + j" by simp
    moreover have "lo \<le> lo + j \<and> lo + j < i" using j by arith
    ultimately show "\<not> P ([lo..<hi] ! j)" using a by simp
  qed
  ultimately show "first_index P lo hi = Some i"
    unfolding first_index_def find_Some_iff using a by metis
qed

lemma first_index_None_iff:
  "first_index P lo hi = None \<longleftrightarrow> (\<forall>j. lo \<le> j \<and> j < hi \<longrightarrow> \<not> P j)"
  by (auto simp: first_index_def find_None_iff)

lemma rev_upt_nth:
  assumes "k < hi - lo"
  shows "rev [lo..<hi] ! k = hi - Suc k"
proof -
  have "rev [lo..<hi] ! k = [lo..<hi] ! (hi - lo - Suc k)"
    using assms by (simp add: rev_nth)
  moreover have "lo + (hi - lo - Suc k) < hi" using assms by arith
  then have "[lo..<hi] ! (hi - lo - Suc k) = lo + (hi - lo - Suc k)" by (rule nth_upt)
  moreover have "lo + (hi - lo - Suc k) = hi - Suc k" using assms by arith
  ultimately show ?thesis by simp
qed

lemma last_index_Some_iff:
  "last_index P lo hi = Some i \<longleftrightarrow>
     lo \<le> i \<and> i < hi \<and> P i \<and> (\<forall>j. i < j \<and> j < hi \<longrightarrow> \<not> P j)"
proof
  assume "last_index P lo hi = Some i"
  then obtain k where k: "k < length (rev [lo..<hi])" "P (rev [lo..<hi] ! k)" "i = rev [lo..<hi] ! k"
      "\<forall>j<k. \<not> P (rev [lo..<hi] ! j)"
    unfolding last_index_def find_Some_iff by blast
  from k(1) have kl: "k < hi - lo" by simp
  then have i: "i = hi - Suc k" using k(3) by (simp add: rev_upt_nth)
  have "\<forall>j. i < j \<and> j < hi \<longrightarrow> \<not> P j"
  proof (intro allI impI)
    fix j assume j: "i < j \<and> j < hi"
    then have jk: "hi - Suc j < k" using i kl by arith
    with k(4) have "\<not> P (rev [lo..<hi] ! (hi - Suc j))" by blast
    moreover have "hi - Suc j < hi - lo" using jk kl by arith
    then have "rev [lo..<hi] ! (hi - Suc j) = hi - Suc (hi - Suc j)" by (rule rev_upt_nth)
    moreover have "hi - Suc (hi - Suc j) = j" using j by arith
    ultimately show "\<not> P j" by simp
  qed
  moreover have "lo \<le> i \<and> i < hi" using i kl by arith
  ultimately show "lo \<le> i \<and> i < hi \<and> P i \<and> (\<forall>j. i < j \<and> j < hi \<longrightarrow> \<not> P j)"
    using k(2,3) by simp
next
  assume a: "lo \<le> i \<and> i < hi \<and> P i \<and> (\<forall>j. i < j \<and> j < hi \<longrightarrow> \<not> P j)"
  have n: "hi - Suc i < hi - lo" using a by arith
  then have "hi - Suc i < length (rev [lo..<hi])" by simp
  moreover have "rev [lo..<hi] ! (hi - Suc i) = i"
  proof -
    have "rev [lo..<hi] ! (hi - Suc i) = hi - Suc (hi - Suc i)" using n by (rule rev_upt_nth)
    moreover have "hi - Suc (hi - Suc i) = i" using a by arith
    ultimately show ?thesis by simp
  qed
  moreover have "\<forall>j<hi - Suc i. \<not> P (rev [lo..<hi] ! j)"
  proof (intro allI impI)
    fix j assume j: "j < hi - Suc i"
    then have "j < hi - lo" using a by arith
    then have "rev [lo..<hi] ! j = hi - Suc j" by (rule rev_upt_nth)
    moreover have "i < hi - Suc j \<and> hi - Suc j < hi" using j by arith
    ultimately show "\<not> P (rev [lo..<hi] ! j)" using a by simp
  qed
  ultimately show "last_index P lo hi = Some i"
    unfolding last_index_def find_Some_iff using a by metis
qed

lemma last_index_None_iff:
  "last_index P lo hi = None \<longleftrightarrow> (\<forall>j. lo \<le> j \<and> j < hi \<longrightarrow> \<not> P j)"
  by (auto simp: last_index_def find_None_iff)

section \<open>The JSON boundary scan\<close>

lemma json_scan_step:
  assumes "1 \<le> d"
  shows "json_scan (b # rest) i d ins esc =
           (if fst (json_step (d, ins, esc) b) = 0 then Some (i + 1)
            else json_scan rest (i + 1) (fst (json_step (d, ins, esc) b))
                   (fst (snd (json_step (d, ins, esc) b))) (snd (snd (json_step (d, ins, esc) b))))"
    and "fst (json_step (d, ins, esc) b) = 0 \<Longrightarrow> b = 0x7d"
    and "fst (json_step (d, ins, esc) b) \<noteq> 0 \<Longrightarrow> 1 \<le> fst (json_step (d, ins, esc) b)"
  using assms by (auto split: if_splits)

lemma json_scan_Some:
  "1 \<le> d \<Longrightarrow> json_scan bs i d ins esc = Some e \<Longrightarrow>
   \<exists>k<length bs. e = i + k + 1 \<and> bs ! k = 0x7d
     \<and> fst (foldl json_step (d, ins, esc) (take (Suc k) bs)) = 0
     \<and> (\<forall>j<k. fst (foldl json_step (d, ins, esc) (take (Suc j) bs)) \<noteq> 0)"
proof (induction bs arbitrary: i d ins esc)
  case Nil
  then show ?case by simp
next
  case (Cons b rest)
  let ?st = "json_step (d, ins, esc) b"
  show ?case
  proof (cases "fst ?st = 0")
    case True
    with Cons.prems have "e = i + 1"
      by (simp add: json_scan_step(1) [OF Cons.prems(1)] del: json_scan.simps json_step.simps)
    moreover from True Cons.prems(1) have "b = 0x7d" by (rule json_scan_step(2) [rotated])
    ultimately have "0 < length (b # rest) \<and> e = i + 0 + 1 \<and> (b # rest) ! 0 = 0x7d
      \<and> fst (foldl json_step (d, ins, esc) (take (Suc 0) (b # rest))) = 0
      \<and> (\<forall>j<0. fst (foldl json_step (d, ins, esc) (take (Suc j) (b # rest))) \<noteq> 0)"
      using True by simp
    then show ?thesis by blast
  next
    case False
    obtain d' ins' esc' where st: "?st = (d', ins', esc')" by (cases ?st) auto
    from False Cons.prems(1) have d': "1 \<le> d'" using json_scan_step(3) [of d ins esc b] st by simp
    from Cons.prems False st have "json_scan rest (i + 1) d' ins' esc' = Some e"
      by (simp only: json_scan_step(1) [OF Cons.prems(1)] if_False fst_conv snd_conv)
    from Cons.IH [OF d' this] obtain k where k: "k < length rest" "e = i + 1 + k + 1"
      "rest ! k = 0x7d" "fst (foldl json_step (d', ins', esc') (take (Suc k) rest)) = 0"
      "\<forall>j<k. fst (foldl json_step (d', ins', esc') (take (Suc j) rest)) \<noteq> 0"
      by blast
    have "\<forall>j<Suc k. fst (foldl json_step (d, ins, esc) (take (Suc j) (b # rest))) \<noteq> 0"
    proof (intro allI impI)
      fix j assume "j < Suc k"
      show "fst (foldl json_step (d, ins, esc) (take (Suc j) (b # rest))) \<noteq> 0"
      proof (cases j)
        case 0
        with False show ?thesis by simp
      next
        case (Suc j')
        with \<open>j < Suc k\<close> k(5) st show ?thesis by simp
      qed
    qed
    with k st have "Suc k < length (b # rest) \<and> e = i + Suc k + 1 \<and> (b # rest) ! Suc k = 0x7d
      \<and> fst (foldl json_step (d, ins, esc) (take (Suc (Suc k)) (b # rest))) = 0
      \<and> (\<forall>j<Suc k. fst (foldl json_step (d, ins, esc) (take (Suc j) (b # rest))) \<noteq> 0)"
      by simp
    then show ?thesis by blast
  qed
qed

lemma json_scan_None:
  "1 \<le> d \<Longrightarrow> json_scan bs i d ins esc = None \<Longrightarrow> k < length bs \<Longrightarrow>
   fst (foldl json_step (d, ins, esc) (take (Suc k) bs)) \<noteq> 0"
proof (induction bs arbitrary: i d ins esc k)
  case Nil
  then show ?case by simp
next
  case (Cons b rest)
  let ?st = "json_step (d, ins, esc) b"
  have nz: "fst ?st \<noteq> 0"
  proof
    assume "fst ?st = 0"
    then have "json_scan (b # rest) i d ins esc = Some (i + 1)"
      by (simp add: json_scan_step(1) [OF Cons.prems(1)] del: json_scan.simps json_step.simps)
    with Cons.prems(2) show False by simp
  qed
  obtain d' ins' esc' where st: "?st = (d', ins', esc')" by (cases ?st) auto
  from nz Cons.prems(1) have d': "1 \<le> d'" using json_scan_step(3) [of d ins esc b] st by simp
  from Cons.prems(2) nz st have none: "json_scan rest (i + 1) d' ins' esc' = None"
    by (simp only: json_scan_step(1) [OF Cons.prems(1)] if_False fst_conv snd_conv)
  show ?case
  proof (cases k)
    case 0
    with nz show ?thesis by simp
  next
    case (Suc k')
    with Cons.prems(3) have "k' < length rest" by simp
    from Cons.IH [OF d' none this] Suc st show ?thesis by simp
  qed
qed

lemma slice_one: "i < length xs \<Longrightarrow> slice xs i (i + 1) = [xs ! i]"
  by (simp add: slice_def take_Suc_conv_app_nth)

lemma sub_at_single: "i < length data \<Longrightarrow> sub_at [b] data i \<longleftrightarrow> data ! i = b"
  using slice_one [of i data] by (simp add: sub_at_def)

lemma py_find_single:
  assumes "j < length data" "data ! j = b" "\<forall>k<j. data ! k \<noteq> b"
  shows "py_find data [b] 0 (length data) = int j"
proof -
  have "first_index (sub_at [b] data) 0 (length data) = Some j"
    unfolding first_index_Some_iff using assms by (simp add: sub_at_single)
  then show ?thesis by (simp add: py_find_def)
qed

lemma json_state_after_open:
  assumes "start < length data" "data ! start = 0x7b" "start \<le> i"
  shows "json_state_after data start i
         = foldl json_step (1, False, False) (take (i - start) (drop (Suc start) data))"
proof -
  have "drop start data = 0x7b # drop (Suc start) data"
    using assms(1,2) by (metis Cons_nth_drop_Suc)
  moreover have "i + 1 - start = Suc (i - start)" using assms(3) by arith
  ultimately show ?thesis by (simp add: json_state_after_def slice_def)
qed

lemma find_json_end_spec:
  assumes "start < length data" "data ! start = 0x7b"
  shows "(\<exists>i. find_json_end data start = i + 1 \<and> closes_at data start i \<and> data ! i = 0x7d
            \<and> (\<forall>k<i. \<not> closes_at data start k))
         \<or> (find_json_end data start = length data \<and> (\<forall>i. \<not> closes_at data start i))"
proof -
  let ?rest = "drop (Suc start) data"
  have dr: "drop start data = 0x7b # ?rest"
    using assms by (metis Cons_nth_drop_Suc)
  have scan: "json_scan (drop start data) start 0 False False
              = json_scan ?rest (start + 1) 1 False False"
    unfolding dr by simp
  have st: "\<And>i. start \<le> i \<Longrightarrow> json_state_after data start i
              = foldl json_step (1, False, False) (take (i - start) ?rest)"
    using assms by (rule json_state_after_open)
  have lr: "length ?rest = length data - Suc start" by simp
  show ?thesis
  proof (cases "json_scan ?rest (start + 1) 1 False False")
    case None
    have "\<forall>i. \<not> closes_at data start i"
    proof (intro allI notI)
      fix i assume c: "closes_at data start i"
      then have i: "start \<le> i" "i < length data" "fst (json_state_after data start i) = 0"
        by (simp_all add: closes_at_def)
      show False
      proof (cases "i = start")
        case True
        with i(3) st [of start] show False by simp
      next
        case False
        with i(1) obtain k where k: "i - start = Suc k" by (cases "i - start") auto
        with i(2) have "k < length ?rest" by simp
        from json_scan_None [OF _ None this] have "fst (foldl json_step (1, False, False) (take (Suc k) ?rest)) \<noteq> 0"
          by simp
        with i(3) st [OF i(1)] k show False by simp
      qed
    qed
    moreover from None scan have "find_json_end data start = length data"
      by (simp add: find_json_end_def)
    ultimately show ?thesis by blast
  next
    case (Some e)
    from json_scan_Some [OF _ Some] obtain k where k: "k < length ?rest" "e = start + 1 + k + 1"
      "?rest ! k = 0x7d" "fst (foldl json_step (1, False, False) (take (Suc k) ?rest)) = 0"
      "\<forall>j<k. fst (foldl json_step (1, False, False) (take (Suc j) ?rest)) \<noteq> 0"
      by auto
    let ?i = "start + 1 + k"
    from k(1) have il: "?i < length data" by simp
    have "?i - start = Suc k" by simp
    with st [of ?i] k(4) have z: "fst (json_state_after data start ?i) = 0" by simp
    with il have c: "closes_at data start ?i" by (simp add: closes_at_def)
    have b: "data ! ?i = 0x7d" using k(3) il by (simp add: add.commute)
    have m: "\<forall>j<?i. \<not> closes_at data start j"
    proof (intro allI impI notI)
      fix j assume j: "j < ?i" and cj: "closes_at data start j"
      then have jj: "start \<le> j" "fst (json_state_after data start j) = 0"
        by (simp_all add: closes_at_def)
      show False
      proof (cases "j = start")
        case True
        with jj(2) st [of start] show False by simp
      next
        case False
        with jj(1) obtain k' where k': "j - start = Suc k'" by (cases "j - start") auto
        with j have "k' < k" by arith
        with k(5) have "fst (foldl json_step (1, False, False) (take (Suc k') ?rest)) \<noteq> 0" by blast
        with jj(2) st [OF jj(1)] k' show False by simp
      qed
    qed
    from Some scan k(2) have "find_json_end data start = ?i + 1"
      by (simp add: find_json_end_def)
    with c b m show ?thesis by blast
  qed
qed

lemma find_json_end_closed:
  assumes "start < length data" "data ! start = 0x7b"
    and "closes_at data start i" "\<forall>k<i. \<not> closes_at data start k"
  shows "find_json_end data start = i + 1 \<and> data ! i = 0x7d"
proof -
  from find_json_end_spec [OF assms(1,2)] assms(3)
  obtain i' where i': "find_json_end data start = i' + 1" "closes_at data start i'"
     "data ! i' = 0x7d" "\<forall>k<i'. \<not> closes_at data start k"
    by blast
  have "i' = i"
  proof (rule ccontr)
    assume "i' \<noteq> i"
    then have "i' < i \<or> i < i'" by arith
    with i'(2,4) assms(3,4) show False by blast
  qed
  with i' show ?thesis by simp
qed

lemma find_json_end_open:
  assumes "start < length data" "data ! start = 0x7b" "\<forall>i. \<not> closes_at data start i"
  shows "find_json_end data start = length data"
  using find_json_end_spec [OF assms(1,2)] assms(3) by blast

lemma find_json_end_gt:
  assumes "start < length data" "data ! start = 0x7b"
  shows "start < find_json_end data start"
proof -
  from find_json_end_spec [OF assms]
  show ?thesis
  proof
    assume "\<exists>i. find_json_end data start = i + 1 \<and> closes_at data start i \<and> data ! i = 0x7d
            \<and> (\<forall>k<i. \<not> closes_at data start k)"
    then obtain i where "find_json_end data start = i + 1" "closes_at data start i" by blast
    then show ?thesis by (simp add: closes_at_def)
  next
    assume "find_json_end data start = length data \<and> (\<forall>i. \<not> closes_at data start i)"
    with assms(1) show ?thesis by simp
  qed
qed

lemma json_strategy_first_brace:
  assumes "j < length raw" "raw ! j = 0x7b" "\<forall>k<j. raw ! k \<noteq> 0x7b"
  shows "json_strategy raw = Some (slice raw j (find_json_end raw j))"
proof -
  from assms(1,2) have mem: "0x7b \<in> set raw" by (metis nth_mem)
  have f: "py_find raw [0x7b] 0 (length raw) = int j" using assms by (rule py_find_single)
  from find_json_end_gt [OF assms(1,2)] have "int (find_json_end raw j) > int j" by simp
  with mem f show ?thesis by (simp add: json_strategy_def Let_def)
qed


lemma first_occurrence:
  assumes "b \<in> set xs"
  shows "\<exists>j<length xs. xs ! j = b \<and> (\<forall>k<j. xs ! k \<noteq> b)"
proof -
  let ?P = "\<lambda>j. j < length xs \<and> xs ! j = b"
  from assms have ex: "\<exists>j. ?P j" by (auto simp: in_set_conv_nth)
  then have "?P (LEAST j. ?P j)" by (rule LeastI_ex)
  moreover have "\<forall>k<(LEAST j. ?P j). xs ! k \<noteq> b"
  proof (intro allI impI)
    fix k assume k: "k < (LEAST j. ?P j)"
    then have "\<not> ?P k" by (rule not_less_Least)
    moreover from k \<open>?P (LEAST j. ?P j)\<close> have "k < length xs" by simp
    ultimately show "xs ! k \<noteq> b" by simp
  qed
  ultimately show ?thesis by blast
qed

lemma clean_json:
  "json_strategy raw = Some content \<Longrightarrow> clean_message_content rt raw = content"
  by (simp add: clean_message_content_def)

lemma slice_to_end: "slice xs j (length xs) = drop j xs"
  by (simp add: slice_def)

section \<open>Content sanitizer: the JSON boundary matcher\<close>



text \<open>
  The matcher is not the search for the last \<open>}}\<close> that the marker program uses: on
  \<open>{}{{}}\<close> it stops at the first \<open>}\<close> that balances the first \<open>{\<close>, while the last
  \<open>}}\<close> is at the end of the input.
\<close>

lemma matcher_differs_from_last_close:
  "json_strategy [0x7b, 0x7d, 0x7b, 0x7b, 0x7d, 0x7d] = Some [0x7b, 0x7d] \<and>
   slice [0x7b, 0x7d, 0x7b, 0x7b, 0x7d, 0x7d :: byte] 0
     (nat (py_rfind [0x7b, 0x7d, 0x7b, 0x7b, 0x7d, 0x7d] [0x7d, 0x7d] 0 6 + 2))
     = [0x7b, 0x7d, 0x7b, 0x7b, 0x7d, 0x7d]"
  by code_simp

section \<open>Content sanitizer: inputs with a brace\<close>

text \<open>
  C10. For an input with a \<open>{\<close> byte the JSON strategy always answers, so the XML and the
  plain-text strategies are not reached, whatever the built-ins are. The result starts
  at the first \<open>{\<close>: it ends at the first \<open>}\<close> at which the depth is back at zero, and
  runs to the end of the input when the depth never returns to zero.
\<close>

theorem sanitizer_slice_from_first_brace:
  "0x7b \<in> set raw \<Longrightarrow>
   \<exists>j<length raw. raw ! j = 0x7b \<and> (\<forall>k<j. raw ! k \<noteq> 0x7b) \<and>
     json_strategy raw \<noteq> None \<and>
     (\<forall>i. closes_at raw j i \<and> (\<forall>k<i. \<not> closes_at raw j k) \<longrightarrow>
          clean_message_content rt raw = slice raw j (i + 1) \<and> raw ! i = 0x7d) \<and>
     ((\<forall>i. \<not> closes_at raw j i) \<longrightarrow> clean_message_content rt raw = drop j raw)"
proof -
  assume "0x7b \<in> set raw"
  from first_occurrence [OF this] obtain j where j: "j < length raw" "raw ! j = 0x7b"
    "\<forall>k<j. raw ! k \<noteq> 0x7b" by blast
  have js: "json_strategy raw = Some (slice raw j (find_json_end raw j))"
    using j by (rule json_strategy_first_brace)
  then have cl: "clean_message_content rt raw = slice raw j (find_json_end raw j)"
    by (rule clean_json)
  have "\<forall>i. closes_at raw j i \<and> (\<forall>k<i. \<not> closes_at raw j k) \<longrightarrow>
          clean_message_content rt raw = slice raw j (i + 1) \<and> raw ! i = 0x7d"
    using find_json_end_closed [OF j(1,2)] cl by auto
  moreover have "(\<forall>i. \<not> closes_at raw j i) \<longrightarrow> clean_message_content rt raw = drop j raw"
    using find_json_end_open [OF j(1,2)] cl by (simp add: slice_to_end)
  ultimately show ?thesis using j js by auto
qed

theorem sanitizer_slice_from_first_brace_witness:
  "0x7b \<in> set [0x41, 0x7b, 0x7d, 0x42 :: byte] \<and>
   clean_message_content ascii_only_builtins [0x41, 0x7b, 0x7d, 0x42] = [0x7b, 0x7d] \<and>
   0x7b \<in> set [0x41, 0x7b, 0x22, 0x7d :: byte] \<and>
   clean_message_content ascii_only_builtins [0x41, 0x7b, 0x22, 0x7d] = [0x7b, 0x22, 0x7d]"
proof -
  let ?r = "[0x41, 0x7b, 0x7d, 0x42 :: byte]"
  let ?s = "[0x41, 0x7b, 0x22, 0x7d :: byte]"
  have mr: "0x7b \<in> set ?r" and ms: "0x7b \<in> set ?s" by simp_all
  from sanitizer_slice_from_first_brace [OF mr, of ascii_only_builtins]
  obtain j where j: "j < length ?r" "?r ! j = 0x7b"
    "\<forall>i. closes_at ?r j i \<and> (\<forall>k<i. \<not> closes_at ?r j k) \<longrightarrow>
        clean_message_content ascii_only_builtins ?r = slice ?r j (i + 1) \<and> ?r ! i = 0x7d"
    by blast
  from j(1) have "j = 0 \<or> j = 1 \<or> j = 2 \<or> j = 3" by simp arith
  with j(2) have j1: "j = 1" by auto
  have "closes_at ?r 1 2" "\<not> closes_at ?r 1 0" "\<not> closes_at ?r 1 1"
    by (simp_all add: closes_at_def json_state_after_def slice_def)
  moreover from this have "\<forall>k<2. \<not> closes_at ?r 1 k" by (auto simp: less_Suc_eq numeral_2_eq_2)
  ultimately have r: "clean_message_content ascii_only_builtins ?r = slice ?r 1 (2 + 1)"
    using j(3) j1 by blast
  from sanitizer_slice_from_first_brace [OF ms, of ascii_only_builtins]
  obtain j' where j': "j' < length ?s" "?s ! j' = 0x7b"
    "(\<forall>i. \<not> closes_at ?s j' i) \<longrightarrow> clean_message_content ascii_only_builtins ?s = drop j' ?s"
    by blast
  from j'(1) have "j' = 0 \<or> j' = 1 \<or> j' = 2 \<or> j' = 3" by simp arith
  with j'(2) have j'1: "j' = 1" by auto
  have "\<forall>i. \<not> closes_at ?s 1 i"
  proof (intro allI notI)
    fix i assume c: "closes_at ?s 1 i"
    then have "i = 1 \<or> i = 2 \<or> i = 3" by (simp add: closes_at_def) arith
    with c show False by (auto simp: closes_at_def json_state_after_def slice_def)
  qed
  with j'(3) j'1 have s: "clean_message_content ascii_only_builtins ?s = drop 1 ?s" by blast
  from r s show ?thesis by (simp add: slice_def)
qed

lemma basename_path_join:
  assumes "CHR ''/'' \<notin> set filename"
  shows "basename (path_join directory filename) = filename"
proof -
  have tw: "takeWhile (\<lambda>c. c \<noteq> CHR ''/'') (rev filename) = rev filename"
    by (rule takeWhile_eq_all_conv [THEN iffD2]) (use assms in auto)
  have 1: "basename filename = filename" unfolding basename_def tw by simp
  have 2: "\<And>d. basename (d @ ''/'' @ filename) = filename"
  proof -
    fix d :: string
    have "takeWhile (\<lambda>c. c \<noteq> CHR ''/'') (rev filename @ CHR ''/'' # rev d) = rev filename"
      using assms by (subst takeWhile_append2) auto
    then show "basename (d @ ''/'' @ filename) = filename" by (simp add: basename_def)
  qed
  have 3: "directory \<noteq> [] \<Longrightarrow> last directory = CHR ''/'' \<Longrightarrow> basename (directory @ filename) = filename"
  proof -
    assume "directory \<noteq> []" "last directory = CHR ''/''"
    then obtain d where "directory = d @ ''/''" by (metis append_butlast_last_id)
    with 2 [of d] show ?thesis by simp
  qed
  from assms have nh: "\<not> (filename \<noteq> [] \<and> hd filename = CHR ''/'')" by (cases filename) auto
  show ?thesis
  proof (cases "directory = []")
    case True
    with nh 1 show ?thesis by (auto simp: path_join_def)
  next
    case False
    show ?thesis
    proof (cases "last directory = CHR ''/''")
      case True
      with False nh 1 3 show ?thesis by (auto simp: path_join_def)
    next
      case no: False
      with False nh 1 2 [of directory] show ?thesis by (auto simp: path_join_def)
    qed
  qed
qed

lemma scan_files_ok:
  assumes "\<forall>f\<in>set listing. endswith f ''.qs'' \<longrightarrow> sequence_key py_int (path_join directory f) \<noteq> None"
  shows "scan_files py_int directory listing
         = Inr (sort_key (\<lambda>f. the (sequence_key py_int f))
                  (map (path_join directory) (filter (\<lambda>f. endswith f ''.qs'') listing)))"
  using assms by (auto simp: scan_files_def Let_def list_ex_iff)

lemma scan_files_error:
  assumes "f \<in> set listing" "endswith f ''.qs''" "sequence_key py_int (path_join directory f) = None"
  shows "scan_files py_int directory listing = Inl ValueError"
  using assms by (auto simp: scan_files_def Let_def list_ex_iff)


lemma sequence_key_path_join:
  "CHR ''/'' \<notin> set f \<Longrightarrow> sequence_key py_int (path_join directory f) = py_int (split_dot_first f)"
  by (simp add: sequence_key_def basename_path_join)

lemma endswith_iff: "endswith f suffix \<longleftrightarrow> (\<exists>stem. f = stem @ suffix)"
proof
  assume "endswith f suffix"
  then have "f = take (length f - length suffix) f @ suffix"
    by (metis append_take_drop_id endswith_def)
  then show "\<exists>stem. f = stem @ suffix" by blast
next
  assume "\<exists>stem. f = stem @ suffix"
  then show "endswith f suffix" by (auto simp: endswith_def)
qed

lemma path_join_plain:
  assumes "CHR ''/'' \<notin> set f"
  shows "path_join directory f
         = (if directory = [] \<or> last directory = CHR ''/'' then directory else directory @ ''/'') @ f"
proof -
  from assms have "\<not> (f \<noteq> [] \<and> hd f = CHR ''/'')" by (cases f) auto
  then show ?thesis by (auto simp: path_join_def)
qed

lemma sorted_by_key_unique:
  assumes "sorted (map k xs)" "sorted (map k ys)" "mset xs = mset ys" "inj_on k (set xs)"
  shows "xs = ys"
proof -
  from assms(3) have "mset (map k xs) = mset (map k ys)" by simp
  with assms(1,2) have "map k xs = map k ys"
    by (metis properties_for_sort)
  moreover from assms(3) have "set ys = set xs" by (metis mset_eq_setD)
  with assms(4) have "inj_on k (set xs \<union> set ys)" by simp
  ultimately show ?thesis by (simp add: inj_on_map_eq_map)
qed

lemma scan_files_names:
  assumes "\<forall>f\<in>set listing. CHR ''/'' \<notin> set f"
    and "\<forall>f\<in>set listing. (\<exists>stem. f = stem @ ''.qs'') \<longrightarrow> py_int (takeWhile (\<lambda>c. c \<noteq> CHR ''.'') f) \<noteq> None"
  shows "\<exists>names. scan_files py_int directory listing
              = Inr (map (\<lambda>f. (if directory = [] \<or> last directory = CHR ''/'' then directory
                                else directory @ ''/'') @ f) names)
           \<and> mset names = mset (filter (\<lambda>f. \<exists>stem. f = stem @ ''.qs'') listing)
           \<and> sorted (map (\<lambda>f. the (py_int (takeWhile (\<lambda>c. c \<noteq> CHR ''.'') f))) names)"
proof -
  let ?qsn = "filter (\<lambda>f. endswith f ''.qs'') listing"
  let ?qs = "map (path_join directory) ?qsn"
  let ?out = "sort_key (\<lambda>f. the (sequence_key py_int f)) ?qs"
  let ?names = "map basename ?out"
  let ?k = "\<lambda>f. the (py_int (takeWhile (\<lambda>c. c \<noteq> CHR ''.'') f))"
  have key: "\<And>f. f \<in> set listing \<Longrightarrow> sequence_key py_int (path_join directory f)
               = py_int (takeWhile (\<lambda>c. c \<noteq> CHR ''.'') f)"
    using assms(1) by (simp add: sequence_key_path_join split_dot_first_def)
  from assms(2) key have "\<forall>f\<in>set listing. endswith f ''.qs'' \<longrightarrow> sequence_key py_int (path_join directory f) \<noteq> None"
    by (simp add: endswith_iff)
  then have scan: "scan_files py_int directory listing = Inr ?out" by (rule scan_files_ok)
  have elems: "\<And>p. p \<in> set ?out \<Longrightarrow> \<exists>f\<in>set listing. p = path_join directory f"
    by auto
  have inv: "\<And>p. p \<in> set ?out \<Longrightarrow> path_join directory (basename p) = p
                \<and> CHR ''/'' \<notin> set (basename p)"
  proof -
    fix p assume "p \<in> set ?out"
    from elems [OF this] obtain f where f: "f \<in> set listing" "p = path_join directory f" by blast
    with assms(1) have "basename p = f" by (simp add: basename_path_join)
    with f assms(1) show "path_join directory (basename p) = p \<and> CHR ''/'' \<notin> set (basename p)"
      by simp
  qed
  have out: "?out = map (\<lambda>f. (if directory = [] \<or> last directory = CHR ''/'' then directory
                                else directory @ ''/'') @ f) ?names"
  proof -
    have "map (\<lambda>f. (if directory = [] \<or> last directory = CHR ''/'' then directory
                                else directory @ ''/'') @ f) ?names
          = map (\<lambda>p. (if directory = [] \<or> last directory = CHR ''/'' then directory
                                else directory @ ''/'') @ basename p) ?out"
      by (simp add: comp_def)
    also have "\<dots> = map (\<lambda>p. p) ?out"
    proof (rule map_cong [OF refl])
      fix p assume "p \<in> set ?out"
      from inv [OF this] path_join_plain [of "basename p" directory]
      show "(if directory = [] \<or> last directory = CHR ''/'' then directory
                                else directory @ ''/'') @ basename p = p"
        by simp
    qed
    finally show ?thesis by simp
  qed
  have "mset ?names = image_mset basename (mset ?out)" by simp
  also have "\<dots> = image_mset basename (image_mset (path_join directory) (mset ?qsn))" by simp
  also have "\<dots> = image_mset (\<lambda>f. basename (path_join directory f)) (mset ?qsn)"
    by (simp add: multiset.map_comp comp_def)
  also have "\<dots> = image_mset (\<lambda>f. f) (mset ?qsn)"
    by (rule image_mset_cong) (use assms(1) in \<open>simp add: basename_path_join\<close>)
  finally have ms: "mset ?names = mset (filter (\<lambda>f. \<exists>stem. f = stem @ ''.qs'') listing)"
    by (simp add: endswith_iff)
  have "sorted (map (\<lambda>f. the (sequence_key py_int f)) ?out)" by (rule sorted_sort_key)
  then have "sorted (map ?k ?names)"
    by (simp add: sequence_key_def split_dot_first_def comp_def)
  with scan out ms show ?thesis by metis
qed

section \<open>Segment catalog: ascending order\<close>

text \<open>
  C9. Let every name of the listing that ends in \<open>.qs\<close> have a prefix before its first
  dot that \<open>int\<close> accepts. Then the catalog consists of the directory joined with
  exactly those names, in ascending order of the integer value of that prefix, and so
  does the catalog of any reordering of the listing; when no two of the names have the
  same integer, the two catalogs are the same list. (Listing entries are plain names:
  they contain no slash.)
\<close>

theorem catalog_sorted_by_sequence_number:
  assumes "\<forall>f\<in>set listing. CHR ''/'' \<notin> set f"
    and "\<forall>f\<in>set listing. (\<exists>stem. f = stem @ ''.qs'') \<longrightarrow> py_int (takeWhile (\<lambda>c. c \<noteq> CHR ''.'') f) \<noteq> None"
    and "mset listing' = mset listing"
  shows "\<exists>names names'.
           scan_files py_int directory listing
             = Inr (map (\<lambda>f. (if directory = [] \<or> last directory = CHR ''/'' then directory
                               else directory @ ''/'') @ f) names)
         \<and> scan_files py_int directory listing'
             = Inr (map (\<lambda>f. (if directory = [] \<or> last directory = CHR ''/'' then directory
                               else directory @ ''/'') @ f) names')
         \<and> mset names = mset (filter (\<lambda>f. \<exists>stem. f = stem @ ''.qs'') listing)
         \<and> mset names' = mset names
         \<and> sorted (map (\<lambda>f. the (py_int (takeWhile (\<lambda>c. c \<noteq> CHR ''.'') f))) names)
         \<and> sorted (map (\<lambda>f. the (py_int (takeWhile (\<lambda>c. c \<noteq> CHR ''.'') f))) names')
         \<and> (inj_on (\<lambda>f. the (py_int (takeWhile (\<lambda>c. c \<noteq> CHR ''.'') f))) (set names)
              \<longrightarrow> names' = names)"
proof -
  let ?k = "\<lambda>f. the (py_int (takeWhile (\<lambda>c. c \<noteq> CHR ''.'') f))"
  let ?j = "\<lambda>f. (if directory = [] \<or> last directory = CHR ''/'' then directory
                               else directory @ ''/'') @ f"
  from assms(3) have s: "set listing' = set listing" by (rule mset_eq_setD)
  from scan_files_names [OF assms(1,2), of directory] obtain names where
    n: "scan_files py_int directory listing = Inr (map ?j names)"
       "mset names = mset (filter (\<lambda>f. \<exists>stem. f = stem @ ''.qs'') listing)"
       "sorted (map ?k names)"
    by blast
  from assms(1,2) s have "\<forall>f\<in>set listing'. CHR ''/'' \<notin> set f"
    and "\<forall>f\<in>set listing'. (\<exists>stem. f = stem @ ''.qs'') \<longrightarrow> py_int (takeWhile (\<lambda>c. c \<noteq> CHR ''.'') f) \<noteq> None"
    by simp_all
  from scan_files_names [OF this, of directory] obtain names' where
    n': "scan_files py_int directory listing' = Inr (map ?j names')"
       "mset names' = mset (filter (\<lambda>f. \<exists>stem. f = stem @ ''.qs'') listing')"
       "sorted (map ?k names')"
    by blast
  have "mset (filter (\<lambda>f. \<exists>stem. f = stem @ ''.qs'') listing')
        = mset (filter (\<lambda>f. \<exists>stem. f = stem @ ''.qs'') listing)"
    using assms(3) by (metis mset_filter)
  with n(2) n'(2) have eq: "mset names' = mset names" by simp
  have "inj_on ?k (set names) \<longrightarrow> names' = names"
  proof
    assume "inj_on ?k (set names)"
    with n(3) n'(3) eq show "names' = names"
      by (metis sorted_by_key_unique)
  qed
  with n n' eq show ?thesis by blast
qed

theorem catalog_sorted_by_sequence_number_witness:
  "scan_files ascii_int ''dir'' [''10.qs'', ''2.qs'', ''notes.txt'', ''1.qs'']
     = Inr [''dir/1.qs'', ''dir/2.qs'', ''dir/10.qs''] \<and>
   scan_files ascii_int ''dir'' [''1.qs'', ''notes.txt'', ''10.qs'', ''2.qs'']
     = Inr [''dir/1.qs'', ''dir/2.qs'', ''dir/10.qs'']"
proof -
  let ?l = "[''10.qs'', ''2.qs'', ''notes.txt'', ''1.qs'']"
  let ?l' = "[''1.qs'', ''notes.txt'', ''10.qs'', ''2.qs'']"
  let ?t = "[''1.qs'', ''2.qs'', ''10.qs'']"
  let ?k = "\<lambda>f. the (ascii_int (takeWhile (\<lambda>c. c \<noteq> CHR ''.'') f))"
  have 1: "\<forall>f\<in>set ?l. CHR ''/'' \<notin> set f" by simp
  have 2: "\<forall>f\<in>set ?l. (\<exists>stem. f = stem @ ''.qs'') \<longrightarrow> ascii_int (takeWhile (\<lambda>c. c \<noteq> CHR ''.'') f) \<noteq> None"
    by (simp add: ascii_int_def digits_int_def is_digit_def)
  have 3: "mset ?l' = mset ?l" by (simp add: ac_simps)
  have 4: "filter (\<lambda>f. \<exists>stem. f = stem @ ''.qs'') ?l = [''10.qs'', ''2.qs'', ''1.qs'']"
    by (simp add: endswith_iff [symmetric] endswith_def)
  have k: "map ?k ?t = [1, 2, 10]"
    by (simp add: ascii_int_def digits_int_def is_digit_def digit_value_def)
  from catalog_sorted_by_sequence_number [OF 1 2 3, of "''dir''"] obtain names names' where
    n: "scan_files ascii_int ''dir'' ?l = Inr (map (\<lambda>f. ''dir/'' @ f) names)"
       "scan_files ascii_int ''dir'' ?l' = Inr (map (\<lambda>f. ''dir/'' @ f) names')"
       "mset names = mset [''10.qs'', ''2.qs'', ''1.qs'']"
       "sorted (map ?k names)"
       "inj_on ?k (set names) \<longrightarrow> names' = names"
    unfolding 4 by auto
  have mt: "mset ?t = mset names" using n(3) by (simp add: ac_simps)
  have st: "sorted (map ?k ?t)" unfolding k by simp
  have it: "inj_on ?k (set ?t)"
    using k by (auto simp: inj_on_def)
  from sorted_by_key_unique [OF st n(4) mt it] have names: "names = ?t" by simp
  with it n(5) have "names' = ?t" by simp
  with names n(1,2) show ?thesis by simp
qed

section \<open>Segment catalog: a name without a numeric prefix\<close>

text \<open>
  C6, as amended. When a name of the listing ends in \<open>.qs\<close> and \<open>int\<close> rejects its prefix
  before the first dot, \<open>scan_files\<close> raises \<open>ValueError\<close> out of the sort; the catalog
  is not built, no file is processed and the run ends with that exception.
\<close>

theorem invalid_filename_aborts_run:
  assumes "f \<in> set listing" and "\<exists>stem. f = stem @ ''.qs''" and "CHR ''/'' \<notin> set f"
    and "py_int (takeWhile (\<lambda>c. c \<noteq> CHR ''.'') f) = None"
  shows "scan_files py_int directory listing = Inl ValueError
         \<and> main_markers py_int cfg fs directory listing = Inl ValueError"
proof -
  from assms(2) have "endswith f ''.qs''" by (simp add: endswith_iff)
  moreover from assms(3,4) have "sequence_key py_int (path_join directory f) = None"
    by (simp add: sequence_key_path_join split_dot_first_def)
  ultimately have "scan_files py_int directory listing = Inl ValueError"
    using assms(1) by (rule scan_files_error [rotated])
  then show ?thesis by (simp add: main_markers_def)
qed

theorem invalid_filename_aborts_run_witness:
  "scan_files ascii_int ''dir'' [''abc.qs'', ''1.qs''] = Inl ValueError \<and>
   main_markers ascii_int \<lparr>file_limit = 0, message_limit = 0\<rparr>
     [''dir/1.qs'' \<mapsto> replicate 64 0 @ [0x6d, 0, 0, 0, 0x7b, 0x7d, 0x7d, 0x74, 0, 0, 0, 0]]
     ''dir'' [''abc.qs'', ''1.qs''] = Inl ValueError"
proof -
  have 1: "''abc.qs'' \<in> set [''abc.qs'', ''1.qs'']" by simp
  have 2: "\<exists>stem. ''abc.qs'' = stem @ ''.qs''" by (rule exI [of _ "''abc''"]) simp
  have 3: "CHR ''/'' \<notin> set ''abc.qs''" by simp
  have 4: "ascii_int (takeWhile (\<lambda>c. c \<noteq> CHR ''.'') ''abc.qs'') = None"
    by (simp add: ascii_int_def digits_int_def is_digit_def)
  from invalid_filename_aborts_run [where py_int = ascii_int and f = "''abc.qs''", OF 1 2 3 4]
  show ?thesis by blast
qed

text \<open>
  The claim as written fails: with \<open>abc.qs\<close> in the listing the run ends with
  \<open>ValueError\<close>, whereas the run over the remaining file alone, which skipping would
  amount to, publishes one message.
\<close>

theorem invalid_filename_counterexample:
  "main_markers ascii_int \<lparr>file_limit = 0, message_limit = 0\<rparr>
     [''dir/1.qs'' \<mapsto> replicate 64 0 @ [0x6d, 0, 0, 0, 0x7b, 0x7d, 0x7d, 0x74, 0, 0, 0, 0]]
     ''dir'' [''abc.qs'', ''1.qs''] = Inl ValueError \<and>
   main_markers ascii_int \<lparr>file_limit = 0, message_limit = 0\<rparr>
     [''dir/1.qs'' \<mapsto> replicate 64 0 @ [0x6d, 0, 0, 0, 0x7b, 0x7d, 0x7d, 0x74, 0, 0, 0, 0]]
     ''dir'' [''1.qs''] = Inr 1"
  by code_simp

section \<open>Raw scanner: a tag in the last four bytes\<close>



section \<open>The double product with 0.7\<close>

lemma excess_bits_le: "p < 2 ^ (53 + k) \<Longrightarrow> excess_bits p \<le> k"
proof (induction k arbitrary: p)
  case 0
  then show ?case by (simp add: excess_bits.simps [of p])
next
  case (Suc k)
  show ?case
  proof (cases "p < 2 ^ 53")
    case True
    then show ?thesis by (simp add: excess_bits.simps [of p])
  next
    case False
    from Suc.prems have "p < 2 ^ Suc (53 + k)" by (simp only: add_Suc_right)
    then have "p < 2 ^ (53 + k) * 2" by (simp only: power_Suc mult.commute)
    then have "p div 2 < 2 ^ (53 + k)" by (rule less_mult_imp_div_less)
    then have "excess_bits (p div 2) \<le> k" by (rule Suc.IH)
    with False show ?thesis by (simp add: excess_bits.simps [of p])
  qed
qed

lemma round_to_double_near:
  "p < round_to_double p + 2 ^ excess_bits p"
proof -
  let ?s = "excess_bits p"
  have p: "p = p div 2 ^ ?s * 2 ^ ?s + p mod 2 ^ ?s" by (rule div_mult_mod_eq [symmetric])
  have r: "p mod 2 ^ ?s < 2 ^ ?s" by simp
  have "round_to_double p = p div 2 ^ ?s * 2 ^ ?s \<or> round_to_double p = (p div 2 ^ ?s + 1) * 2 ^ ?s"
    by (simp add: round_to_double_def Let_def)
  then show ?thesis
  proof
    assume "round_to_double p = p div 2 ^ ?s * 2 ^ ?s"
    with p r show ?thesis by linarith
  next
    assume "round_to_double p = (p div 2 ^ ?s + 1) * 2 ^ ?s"
    then have "round_to_double p = p div 2 ^ ?s * 2 ^ ?s + 2 ^ ?s" by (simp add: algebra_simps)
    with p r show ?thesis by linarith
  qed
qed

lemma round_to_double_below_multiple:
  assumes "2 ^ excess_bits p dvd x" and "p \<le> x"
  shows "round_to_double p \<le> x"
proof -
  let ?s = "excess_bits p"
  let ?q = "p div 2 ^ ?s"
  let ?r = "p mod 2 ^ ?s"
  have p: "p = ?q * 2 ^ ?s + ?r" by (rule div_mult_mod_eq [symmetric])
  from assms(1) obtain m where m: "x = m * 2 ^ ?s" by (auto simp: dvd_def mult.commute)
  show ?thesis
  proof (cases "2 * ?r > 2 ^ ?s \<or> (2 * ?r = 2 ^ ?s \<and> odd ?q)")
    case False
    then have "round_to_double p = ?q * 2 ^ ?s" by (simp add: round_to_double_def Let_def)
    with p assms(2) show ?thesis by linarith
  next
    case True
    then have R: "round_to_double p = (?q + 1) * 2 ^ ?s" by (simp add: round_to_double_def Let_def)
    from True have "0 < ?r" by (cases "?r = 0") auto
    with p have "?q * 2 ^ ?s < p" by linarith
    moreover from assms(2) m have "p \<le> m * 2 ^ ?s" by simp
    ultimately have "?q * 2 ^ ?s < m * 2 ^ ?s" by (rule less_le_trans)
    then have "?q < m" by simp
    then have "?q + 1 \<le> m" by simp
    then have "(?q + 1) * 2 ^ ?s \<le> m * 2 ^ ?s" by (rule mult_le_mono1)
    with R m show ?thesis by simp
  qed
qed

lemma times_0_7_compare:
  assumes "n \<le> 200"
  shows "p * 2 ^ 53 < times_0_7 n \<longleftrightarrow> 10 * p < 7 * n"
proof -
  let ?M = "6305039478318694 :: nat"
  let ?P = "n * ?M"
  let ?s = "excess_bits ?P"
  let ?R = "round_to_double ?P"
  have M: "10 * ?M + 4 = 7 * 2 ^ 53" by simp
  have "?P \<le> 200 * ?M" using assms by simp
  also have "\<dots> < 2 ^ (53 + 8)" by simp
  finally have s8: "?s \<le> 8" by (rule excess_bits_le)
  have "(2::nat) ^ ?s \<le> 2 ^ 8" by (rule power_increasing [OF s8]) simp
  then have pw: "(2::nat) ^ ?s \<le> 256" by simp
  have near: "?P < ?R + 256" using round_to_double_near [of ?P] pw by linarith
  have P10: "10 * ?P + 4 * n = 7 * n * 2 ^ 53"
  proof -
    have a: "10 * ?P + 4 * n = n * (10 * ?M + 4)" by (simp add: algebra_simps)
    have b: "n * (10 * ?M + 4) = n * (7 * 2 ^ 53)" by (simp only: M)
    from a b show ?thesis by (simp add: algebra_simps)
  qed
  show ?thesis
  proof (cases "10 * p < 7 * n")
    case True
    then have "10 * p + 1 \<le> 7 * n" by simp
    then have "(10 * p + 1) * 2 ^ 53 \<le> 7 * n * (2 ^ 53 :: nat)" by (rule mult_le_mono1)
    with P10 have "10 * (p * 2 ^ 53) + 2 ^ 53 \<le> 10 * ?P + 4 * n" by (simp add: algebra_simps)
    with near assms have "p * 2 ^ 53 < ?R" by simp
    with True show ?thesis by (simp add: times_0_7_def)
  next
    case False
    then have "7 * n \<le> 10 * p" by simp
    then have "7 * n * 2 ^ 53 \<le> 10 * p * (2 ^ 53 :: nat)" by (rule mult_le_mono1)
    with P10 have "?P \<le> p * 2 ^ 53" by simp
    moreover have "(2::nat) ^ ?s dvd p * 2 ^ 53"
    proof -
      from s8 have "?s \<le> 53" by simp
      then have "(2::nat) ^ ?s dvd 2 ^ 53" by (rule le_imp_power_dvd)
      then show ?thesis by (rule dvd_mult)
    qed
    ultimately have "?R \<le> p * 2 ^ 53" by (rule round_to_double_below_multiple [rotated])
    with False show ?thesis by (simp add: times_0_7_def)
  qed
qed

section \<open>The three checks of the validator\<close>

lemma mem_dropWhile: "x \<in> set xs \<Longrightarrow> \<not> P x \<Longrightarrow> x \<in> set (dropWhile P xs)"
  by (induction xs) auto

lemma str_strip_subset: "x \<in> set (str_strip rt s) \<Longrightarrow> x \<in> set s"
  unfolding str_strip_def by (metis set_dropWhileD set_rev)

lemma str_strip_keeps: "x \<in> set s \<Longrightarrow> \<not> isspace rt x \<Longrightarrow> x \<in> set (str_strip rt s)"
  unfolding str_strip_def by (simp add: mem_dropWhile)

lemma length_take_200: "length (take 200 content) \<le> 200"
  by simp

lemma rejects_short: "length content < 10 \<Longrightarrow> \<not> is_valid_content rt content"
  by (simp add: is_valid_content_def)

lemma rejects_unprintable:
  assumes "10 * length (filter (\<lambda>c. isprintable rt c \<or> c = 10 \<or> c = 13 \<or> c = 9) (take 200 content))
             < 7 * length (take 200 content)"
  shows "\<not> is_valid_content rt content"
proof -
  have "(\<lambda>c. isprintable rt c \<or> c \<in> {10, 13, 9}) = (\<lambda>c. isprintable rt c \<or> c = 10 \<or> c = 13 \<or> c = 9)"
    by auto
  with assms times_0_7_compare [OF length_take_200, of _ content]
  show ?thesis by (simp add: is_valid_content_def Let_def)
qed

lemma rejects_alnum:
  assumes all: "\<forall>c\<in>set content. c = 10 \<or> c = 13 \<or> isalnum rt c"
    and long: "100 < length (filter (\<lambda>c. c \<noteq> 10 \<and> c \<noteq> 13) content)"
    and disj: "\<forall>c\<in>set content. isalnum rt c \<longrightarrow> \<not> isspace rt c"
  shows "\<not> is_valid_content rt content"
proof -
  let ?u = "filter (\<lambda>c. c \<noteq> 13) (filter (\<lambda>c. c \<noteq> 10) (str_strip rt content))"
  from long have "filter (\<lambda>c. c \<noteq> 10 \<and> c \<noteq> 13) content \<noteq> []" by auto
  then obtain c where c: "c \<in> set content" "c \<noteq> 10" "c \<noteq> 13"
    by (auto simp: filter_empty_conv)
  with all have "isalnum rt c" by blast
  with disj c(1) have "\<not> isspace rt c" by blast
  with c(1) have "c \<in> set (str_strip rt content)" by (rule str_strip_keeps)
  with c(2,3) have "c \<in> set ?u" by simp
  then have ne: "?u \<noteq> []" by (metis empty_iff list.set(1))
  have "\<forall>x\<in>set ?u. isalnum rt x"
  proof
    fix x assume "x \<in> set ?u"
    then have "x \<in> set (str_strip rt content)" "x \<noteq> 10" "x \<noteq> 13" by simp_all
    with all str_strip_subset [of x rt content] show "isalnum rt x" by blast
  qed
  with ne have alnum: "str_isalnum rt ?u" by (simp add: str_isalnum_def list_all_iff)
  have "length (filter (\<lambda>c. c \<noteq> 10 \<and> c \<noteq> 13) content) \<le> length content" by (rule length_filter_le)
  with long have "100 < length content" by (rule less_le_trans)
  with alnum show ?thesis by (simp add: is_valid_content_def Let_def)
qed

lemma accepts_text:
  assumes len: "10 \<le> length content"
    and all: "\<forall>c\<in>set content. isprintable rt c \<or> c = 10 \<or> c = 13 \<or> c = 9"
    and punct: "\<exists>c\<in>set content. \<not> isalnum rt c \<and> \<not> isspace rt c"
  shows "is_valid_content rt content"
proof -
  let ?u = "filter (\<lambda>c. c \<noteq> 13) (filter (\<lambda>c. c \<noteq> 10) (str_strip rt content))"
  have "\<forall>c\<in>set (take 200 content). isprintable rt c \<or> c \<in> {10, 13, 9}"
    using all by (auto dest: in_set_takeD)
  then have "filter (\<lambda>c. isprintable rt c \<or> c \<in> {10, 13, 9}) (take 200 content) = take 200 content"
    by (simp add: filter_id_conv)
  then have pr: "\<not> length (filter (\<lambda>c. isprintable rt c \<or> c \<in> {10, 13, 9}) (take 200 content)) * 2 ^ 53
                   < times_0_7 (length (take 200 content))"
    using times_0_7_compare [OF length_take_200, of "length (take 200 content)" content] by simp
  from punct obtain c where c: "c \<in> set content" "\<not> isalnum rt c" "\<not> isspace rt c" by blast
  from c(3) have "c \<noteq> 10" "c \<noteq> 13" by (auto simp: isspace_def)
  moreover from c(1,3) have "c \<in> set (str_strip rt content)" by (rule str_strip_keeps)
  ultimately have "c \<in> set ?u" by simp
  with c(2) have "\<not> str_isalnum rt ?u" by (auto simp: str_isalnum_def list_all_iff)
  with len pr show ?thesis by (simp add: is_valid_content_def Let_def)
qed

section \<open>Content validator\<close>

text \<open>
  C4. The validator rejects a string of fewer than 10 characters; it rejects a string
  when fewer than 70 percent of its first 200 characters are printable or one of LF,
  CR, TAB (the comparison is the one the double product makes); it rejects a string
  that, once LF and CR are removed, consists of alphanumeric characters only and has
  more than 100 of them (no alphanumeric character being whitespace). So every string
  of 150 ASCII letters and digits is rejected, and every string of 150 characters that
  are printable ASCII or LF, CR, TAB and that include an ASCII punctuation character
  and a whitespace character is accepted.
\<close>

theorem validator_checks:
  "(length content < 10 \<longrightarrow> \<not> is_valid_content rt content) \<and>
   (10 * length (filter (\<lambda>c. isprintable rt c \<or> c = 10 \<or> c = 13 \<or> c = 9) (take 200 content))
      < 7 * length (take 200 content) \<longrightarrow> \<not> is_valid_content rt content) \<and>
   ((\<forall>c. isalnum rt c \<longrightarrow> \<not> isspace rt c) \<and>
    (\<forall>c\<in>set content. c = 10 \<or> c = 13 \<or> isalnum rt c) \<and>
    100 < length (filter (\<lambda>c. c \<noteq> 10 \<and> c \<noteq> 13) content)
      \<longrightarrow> \<not> is_valid_content rt content) \<and>
   (length content = 150 \<and>
    (\<forall>c\<in>set content. (48 \<le> c \<and> c \<le> 57) \<or> (65 \<le> c \<and> c \<le> 90) \<or> (97 \<le> c \<and> c \<le> 122))
      \<longrightarrow> \<not> is_valid_content rt content) \<and>
   (length content = 150 \<and>
    (\<forall>c\<in>set content. (32 \<le> c \<and> c \<le> 126) \<or> c = 9 \<or> c = 10 \<or> c = 13) \<and>
    (\<exists>c\<in>set content. (33 \<le> c \<and> c \<le> 47) \<or> (58 \<le> c \<and> c \<le> 64) \<or> (91 \<le> c \<and> c \<le> 96)
                        \<or> (123 \<le> c \<and> c \<le> 126)) \<and>
    (\<exists>c\<in>set content. c = 32 \<or> c = 9 \<or> c = 10 \<or> c = 13)
      \<longrightarrow> is_valid_content rt content)"
proof (intro conjI impI)
  assume "length content < 10"
  then show "\<not> is_valid_content rt content" by (rule rejects_short)
next
  assume "10 * length (filter (\<lambda>c. isprintable rt c \<or> c = 10 \<or> c = 13 \<or> c = 9) (take 200 content))
      < 7 * length (take 200 content)"
  then show "\<not> is_valid_content rt content" by (rule rejects_unprintable)
next
  assume a: "(\<forall>c. isalnum rt c \<longrightarrow> \<not> isspace rt c) \<and>
    (\<forall>c\<in>set content. c = 10 \<or> c = 13 \<or> isalnum rt c) \<and>
    100 < length (filter (\<lambda>c. c \<noteq> 10 \<and> c \<noteq> 13) content)"
  then show "\<not> is_valid_content rt content"
    by (intro rejects_alnum) auto
next
  assume a: "length content = 150 \<and>
    (\<forall>c\<in>set content. (48 \<le> c \<and> c \<le> 57) \<or> (65 \<le> c \<and> c \<le> 90) \<or> (97 \<le> c \<and> c \<le> 122))"
  then have al: "\<forall>c\<in>set content. isalnum rt c \<and> \<not> isspace rt c \<and> c \<noteq> 10 \<and> c \<noteq> 13"
    by (auto simp: isalnum_def isspace_def)
  then have "filter (\<lambda>c. c \<noteq> 10 \<and> c \<noteq> 13) content = content"
    by (simp add: filter_id_conv)
  with a have "100 < length (filter (\<lambda>c. c \<noteq> 10 \<and> c \<noteq> 13) content)" by simp
  with al show "\<not> is_valid_content rt content"
    by (intro rejects_alnum) auto
next
  assume a: "length content = 150 \<and>
    (\<forall>c\<in>set content. (32 \<le> c \<and> c \<le> 126) \<or> c = 9 \<or> c = 10 \<or> c = 13) \<and>
    (\<exists>c\<in>set content. (33 \<le> c \<and> c \<le> 47) \<or> (58 \<le> c \<and> c \<le> 64) \<or> (91 \<le> c \<and> c \<le> 96)
                        \<or> (123 \<le> c \<and> c \<le> 126)) \<and>
    (\<exists>c\<in>set content. c = 32 \<or> c = 9 \<or> c = 10 \<or> c = 13)"
  then have 1: "10 \<le> length content" by simp
  from a have 2: "\<forall>c\<in>set content. isprintable rt c \<or> c = 10 \<or> c = 13 \<or> c = 9"
    by (auto simp: isprintable_def)
  from a obtain c where "c \<in> set content"
    "(33 \<le> c \<and> c \<le> 47) \<or> (58 \<le> c \<and> c \<le> 64) \<or> (91 \<le> c \<and> c \<le> 96) \<or> (123 \<le> c \<and> c \<le> 126)"
    by blast
  then have 3: "\<exists>c\<in>set content. \<not> isalnum rt c \<and> \<not> isspace rt c"
    by (auto simp: isalnum_def isspace_def intro!: bexI [of _ c])
  from 1 2 3 show "is_valid_content rt content" by (rule accepts_text)
qed

theorem validator_checks_witness:
  "\<not> is_valid_content ascii_only_builtins (replicate 9 97) \<and>
   \<not> is_valid_content ascii_only_builtins (replicate 7 97 @ replicate 4 1) \<and>
   \<not> is_valid_content ascii_only_builtins (replicate 60 97 @ [10] @ replicate 60 98) \<and>
   \<not> is_valid_content ascii_only_builtins (replicate 150 97) \<and>
   is_valid_content ascii_only_builtins
     (concat (replicate 15 [123, 34, 107, 34, 58, 32, 34, 118, 34, 125]))"
proof -
  let ?rt = ascii_only_builtins
  have 1: "\<not> is_valid_content ?rt (replicate 9 97)"
    using validator_checks [of "replicate 9 97" ?rt] by simp
  have "10 * length (filter (\<lambda>c. isprintable ?rt c \<or> c = 10 \<or> c = 13 \<or> c = 9)
                (take 200 (replicate 7 97 @ replicate 4 1)))
        < 7 * length (take 200 (replicate 7 97 @ replicate 4 (1::nat)))"
    by (simp add: isprintable_def)
  then have 2: "\<not> is_valid_content ?rt (replicate 7 97 @ replicate 4 1)"
    using validator_checks [of "replicate 7 97 @ replicate 4 1" ?rt] by blast
  have d: "\<forall>c. isalnum ?rt c \<longrightarrow> \<not> isspace ?rt c"
    by (auto simp: isalnum_def isspace_def ascii_only_builtins_def)
  have a: "\<forall>c\<in>set (replicate 60 97 @ [10] @ replicate 60 98). c = 10 \<or> c = 13 \<or> isalnum ?rt c"
    by (auto simp: isalnum_def)
  have l: "100 < length (filter (\<lambda>c. c \<noteq> 10 \<and> c \<noteq> 13) (replicate 60 97 @ [10] @ replicate 60 (98::nat)))"
    by simp
  from d a l have 3: "\<not> is_valid_content ?rt (replicate 60 97 @ [10] @ replicate 60 98)"
    using validator_checks [of "replicate 60 97 @ [10] @ replicate 60 98" ?rt] by blast
  have "length (replicate 150 (97::nat)) = 150 \<and>
        (\<forall>c\<in>set (replicate 150 (97::nat)). (48 \<le> c \<and> c \<le> 57) \<or> (65 \<le> c \<and> c \<le> 90) \<or> (97 \<le> c \<and> c \<le> 122))"
    by simp
  then have 4: "\<not> is_valid_content ?rt (replicate 150 97)"
    using validator_checks [of "replicate 150 97" ?rt] by blast
  let ?j = "concat (replicate 15 [123, 34, 107, 34, 58, 32, 34, 118, 34, 125 :: nat])"
  have s: "set ?j = {123, 34, 107, 58, 32, 118, 125}" by auto
  have len: "length ?j = 150" by (simp add: length_concat sum_list_replicate)
  have all: "\<forall>c\<in>set ?j. (32 \<le> c \<and> c \<le> 126) \<or> c = 9 \<or> c = 10 \<or> c = 13"
    unfolding s by simp
  have p: "\<exists>c\<in>set ?j. (33 \<le> c \<and> c \<le> 47) \<or> (58 \<le> c \<and> c \<le> 64) \<or> (91 \<le> c \<and> c \<le> 96)
                        \<or> (123 \<le> c \<and> c \<le> 126)"
    unfolding s by simp
  have w: "\<exists>c\<in>set ?j. c = 32 \<or> c = 9 \<or> c = 10 \<or> c = 13"
    unfolding s by simp
  from len all p w have 5: "is_valid_content ?rt ?j"
    using validator_checks [of ?j ?rt] by blast
  from 1 2 3 4 5 show ?thesis by blast
qed

section \<open>Strategy B on a file of well-formed entries\<close>

lemma payload_of_entry:
  "extract_payload_from_erlang
     ([0x6d, 0, 0, 0, 11] @ [0x7b, 0x22, 0x69, 0x64, 0x22, 0x3a, 0x31, 0x32, 0x33, 0x34, 0x7d])
   = [0x7b, 0x22, 0x69, 0x64, 0x22, 0x3a, 0x31, 0x32, 0x33, 0x34, 0x7d]"
proof -
  let ?j = "[0x7b, 0x22, 0x69, 0x64, 0x22, 0x3a, 0x31, 0x32, 0x33, 0x34, 0x7d :: byte]"
  let ?d = "[0x6d, 0, 0, 0, 11] @ ?j"
  have step: "payload_step ?d 0 [] = (16, ?j)"
    by (simp add: payload_step_def slice_def from_bytes_big_def printable_count_def Let_def)
  have "payload_loop ?d 0 [] = payload_loop ?d 16 ?j"
    by (subst payload_loop.simps) (simp only: step fst_conv snd_conv, simp)
  also have "\<dots> = ?j"
    by (subst payload_loop.simps) simp
  finally show ?thesis by (simp add: extract_payload_from_erlang_def)
qed

lemma clean_of_entry:
  "clean_message_content rt [0x7b, 0x22, 0x69, 0x64, 0x22, 0x3a, 0x31, 0x32, 0x33, 0x34, 0x7d]
   = [0x7b, 0x22, 0x69, 0x64, 0x22, 0x3a, 0x31, 0x32, 0x33, 0x34, 0x7d]"
proof -
  let ?j = "[0x7b, 0x22, 0x69, 0x64, 0x22, 0x3a, 0x31, 0x32, 0x33, 0x34, 0x7d :: byte]"
  have e: "find_json_end ?j 0 = 11" by (simp add: find_json_end_def)
  have "json_strategy ?j = Some (slice ?j 0 (find_json_end ?j 0))"
    by (rule json_strategy_first_brace) simp_all
  then have "json_strategy ?j = Some ?j" unfolding e by (simp add: slice_def)
  then show ?thesis by (rule clean_json)
qed

lemma valid_of_entry:
  "is_valid_content ascii_only_builtins [123, 34, 105, 100, 34, 58, 49, 50, 51, 52, 125]"
proof (rule accepts_text)
  show "10 \<le> length [123, 34, 105, 100, 34, 58, 49, 50, 51, 52, 125 :: nat]" by simp
  show "\<forall>c\<in>set [123, 34, 105, 100, 34, 58, 49, 50, 51, 52, 125].
          isprintable ascii_only_builtins c \<or> c = 10 \<or> c = 13 \<or> c = 9"
    by (simp add: isprintable_def)
  show "\<exists>c\<in>set [123, 34, 105, 100, 34, 58, 49, 50, 51, 52, 125].
          \<not> isalnum ascii_only_builtins c \<and> \<not> isspace ascii_only_builtins c"
    by (simp add: isalnum_def isspace_def)
qed

lemma entry_is_accepted:
  "entry_accepted ascii_only_builtins
     ([0x83, 0x6d, 0, 0, 0, 11] @ [0x7b, 0x22, 0x69, 0x64, 0x22, 0x3a, 0x31, 0x32, 0x33, 0x34, 0x7d])"
proof -
  have d: "decode_strict ascii_only_builtins
             [0x7b, 0x22, 0x69, 0x64, 0x22, 0x3a, 0x31, 0x32, 0x33, 0x34, 0x7d]
           = Some [123, 34, 105, 100, 34, 58, 49, 50, 51, 52, 125]"
    by (simp add: ascii_only_builtins_def)
  have "entry_accepted ascii_only_builtins
     ([0x83, 0x6d, 0, 0, 0, 11] @ [0x7b, 0x22, 0x69, 0x64, 0x22, 0x3a, 0x31, 0x32, 0x33, 0x34, 0x7d])
     = (let payload = extract_payload_from_erlang
            ([0x6d, 0, 0, 0, 11] @ [0x7b, 0x22, 0x69, 0x64, 0x22, 0x3a, 0x31, 0x32, 0x33, 0x34, 0x7d])
        in if payload \<noteq> [] \<and> length payload > 10 then
           (case decode_strict ascii_only_builtins (clean_message_content ascii_only_builtins payload) of
              None \<Rightarrow> False
            | Some content_str \<Rightarrow> is_valid_content ascii_only_builtins content_str)
         else False)"
    by (simp add: entry_accepted_def)
  then show ?thesis
    by (simp only: payload_of_entry Let_def clean_of_entry d) (simp add: valid_of_entry)
qed

lemma read_good_entry:
  assumes "length pre = pos"
  shows "read_entry (pre @ [0, 0, 0, 17, 0, 0, 0, 0]
            @ ([0x83, 0x6d, 0, 0, 0, 11] @ [0x7b, 0x22, 0x69, 0x64, 0x22, 0x3a, 0x31, 0x32, 0x33, 0x34, 0x7d])
            @ rest) pos
         = Inr (Entry ([0x83, 0x6d, 0, 0, 0, 11] @ [0x7b, 0x22, 0x69, 0x64, 0x22, 0x3a, 0x31, 0x32, 0x33, 0x34, 0x7d])
                 (pos + 25))"
  using assms
  by (simp add: read_entry_def slice_def from_bytes_big_def byte_at_def Let_def nth_append)

lemma entries_loop_one_entry:
  "entries_loop ascii_only_builtins \<lparr>file_limit = 0, message_limit = 2\<rparr>
     (replicate 64 0 @ [0, 0, 0, 17, 0, 0, 0, 0]
        @ ([0x83, 0x6d, 0, 0, 0, 11] @ [0x7b, 0x22, 0x69, 0x64, 0x22, 0x3a, 0x31, 0x32, 0x33, 0x34, 0x7d])
        @ []) 64 0 = 1"
proof -
  let ?b = "[0x83, 0x6d, 0, 0, 0, 11] @ [0x7b, 0x22, 0x69, 0x64, 0x22, 0x3a, 0x31, 0x32, 0x33, 0x34, 0x7d :: byte]"
  let ?f = "replicate 64 0 @ [0, 0, 0, 17, 0, 0, 0, 0] @ ?b @ []"
  let ?cfg = "\<lparr>file_limit = 0, message_limit = 2\<rparr>"
  have r1: "read_entry ?f 64 = Inr (Entry ?b (64 + 25))"
    by (rule read_good_entry) simp
  have r2: "read_entry ?f 89 = Inr Stop"
    by (simp add: read_entry_def)
  have "entries_loop ascii_only_builtins ?cfg ?f 64 0 = entries_loop ascii_only_builtins ?cfg ?f 89 1"
    by (subst entries_loop.simps) (simp only: r1, simp add: entry_is_accepted [simplified])
  also have "\<dots> = 1"
    by (subst entries_loop.simps) (simp only: r2, simp)
  finally show ?thesis .
qed

lemma entries_loop_two_entries:
  "entries_loop ascii_only_builtins \<lparr>file_limit = 0, message_limit = 2\<rparr>
     (replicate 64 0 @ [0, 0, 0, 17, 0, 0, 0, 0]
        @ ([0x83, 0x6d, 0, 0, 0, 11] @ [0x7b, 0x22, 0x69, 0x64, 0x22, 0x3a, 0x31, 0x32, 0x33, 0x34, 0x7d])
        @ ([0, 0, 0, 17, 0, 0, 0, 0]
        @ ([0x83, 0x6d, 0, 0, 0, 11] @ [0x7b, 0x22, 0x69, 0x64, 0x22, 0x3a, 0x31, 0x32, 0x33, 0x34, 0x7d])
        @ [])) 64 0 = 2"
proof -
  let ?h = "[0, 0, 0, 17, 0, 0, 0, 0 :: byte]"
  let ?b = "[0x83, 0x6d, 0, 0, 0, 11] @ [0x7b, 0x22, 0x69, 0x64, 0x22, 0x3a, 0x31, 0x32, 0x33, 0x34, 0x7d :: byte]"
  let ?f = "replicate 64 0 @ ?h @ ?b @ (?h @ ?b @ [])"
  let ?cfg = "\<lparr>file_limit = 0, message_limit = 2\<rparr>"
  have r1: "read_entry ?f 64 = Inr (Entry ?b (64 + 25))"
    by (rule read_good_entry) simp
  have "read_entry ((replicate 64 0 @ ?h @ ?b) @ ?h @ ?b @ []) 89 = Inr (Entry ?b (89 + 25))"
    by (rule read_good_entry) simp
  then have r2: "read_entry ?f 89 = Inr (Entry ?b (89 + 25))"
    by (simp only: append_assoc)
  have "entries_loop ascii_only_builtins ?cfg ?f 64 0 = entries_loop ascii_only_builtins ?cfg ?f 89 1"
    by (subst entries_loop.simps) (simp only: r1, simp add: entry_is_accepted [simplified])
  also have "\<dots> = 2"
    by (subst entries_loop.simps) (simp only: r2, simp add: entry_is_accepted [simplified])
  finally show ?thesis .
qed

lemma markers_two_messages:
  "process_files \<lparr>file_limit = 0, message_limit = 1\<rparr>
     (extract_and_publish_exact_markers
        [''dir/1.qs'' \<mapsto> replicate 64 0
            @ [0x6d, 0, 0, 0, 0x7b, 0x7d, 0x7d, 0x74, 0, 0, 0]
            @ [0x6d, 0, 0, 0, 0x7b, 0x7d, 0x7d, 0x74, 0, 0, 0, 0]])
     [''dir/1.qs''] = 2"
  by code_simp

section \<open>Recovery pipeline: the message limit\<close>

text \<open>
  C5. The option \<open>--message-limit\<close> is documented as "Maximum number of messages to
  publish". With limit 1 and one segment file that holds two messages, the marker
  program publishes both: the limit is only compared with the total after a whole
  file. With limit 2, a first file of one entry and a second file of two entries, the
  entry program publishes three: inside a file it compares the limit with the count of
  that file, not with the total.
\<close>

theorem message_limit_exceeded_within_file:
  "process_files \<lparr>file_limit = 0, message_limit = 1\<rparr>
     (extract_and_publish_exact_markers
        [''dir/1.qs'' \<mapsto> replicate 64 0
            @ [0x6d, 0, 0, 0, 0x7b, 0x7d, 0x7d, 0x74, 0, 0, 0]
            @ [0x6d, 0, 0, 0, 0x7b, 0x7d, 0x7d, 0x74, 0, 0, 0, 0]])
     [''dir/1.qs''] = 2 \<and>
   process_files \<lparr>file_limit = 0, message_limit = 2\<rparr>
     (extract_messages_from_erlang_entries ascii_only_builtins \<lparr>file_limit = 0, message_limit = 2\<rparr>
        [''dir/1.qs'' \<mapsto> replicate 64 0 @ [0, 0, 0, 17, 0, 0, 0, 0]
            @ ([0x83, 0x6d, 0, 0, 0, 11] @ [0x7b, 0x22, 0x69, 0x64, 0x22, 0x3a, 0x31, 0x32, 0x33, 0x34, 0x7d])
            @ [],
         ''dir/2.qs'' \<mapsto> replicate 64 0 @ [0, 0, 0, 17, 0, 0, 0, 0]
            @ ([0x83, 0x6d, 0, 0, 0, 11] @ [0x7b, 0x22, 0x69, 0x64, 0x22, 0x3a, 0x31, 0x32, 0x33, 0x34, 0x7d])
            @ ([0, 0, 0, 17, 0, 0, 0, 0]
            @ ([0x83, 0x6d, 0, 0, 0, 11] @ [0x7b, 0x22, 0x69, 0x64, 0x22, 0x3a, 0x31, 0x32, 0x33, 0x34, 0x7d])
            @ [])])
     [''dir/1.qs'', ''dir/2.qs''] = 3"
proof -
  have b: "process_files \<lparr>file_limit = 0, message_limit = 2\<rparr>
     (extract_messages_from_erlang_entries ascii_only_builtins \<lparr>file_limit = 0, message_limit = 2\<rparr>
        [''dir/1.qs'' \<mapsto> replicate 64 0 @ [0, 0, 0, 17, 0, 0, 0, 0]
            @ ([0x83, 0x6d, 0, 0, 0, 11] @ [0x7b, 0x22, 0x69, 0x64, 0x22, 0x3a, 0x31, 0x32, 0x33, 0x34, 0x7d])
            @ [],
         ''dir/2.qs'' \<mapsto> replicate 64 0 @ [0, 0, 0, 17, 0, 0, 0, 0]
            @ ([0x83, 0x6d, 0, 0, 0, 11] @ [0x7b, 0x22, 0x69, 0x64, 0x22, 0x3a, 0x31, 0x32, 0x33, 0x34, 0x7d])
            @ ([0, 0, 0, 17, 0, 0, 0, 0]
            @ ([0x83, 0x6d, 0, 0, 0, 11] @ [0x7b, 0x22, 0x69, 0x64, 0x22, 0x3a, 0x31, 0x32, 0x33, 0x34, 0x7d])
            @ [])])
     [''dir/1.qs'', ''dir/2.qs''] = 3"
    unfolding process_files_def extract_messages_from_erlang_entries_def
    by (simp add: entries_loop_one_entry [simplified] entries_loop_two_entries [simplified])
  show ?thesis by (rule conjI [OF markers_two_messages b])
qed

end
